theory Spec2Isabelle
  imports Complex_Main "HOL-Library.AList" "HOL-Library.Multiset"
begin

section \<open>Data model of DTLMedian.py\<close>

text \<open>
  A mapping node is a Python pair \<open>(gene_node, SPECIES_NODE)\<close>; the pair \<open>(None, None)\<close>
  is the child of loss and contemporary events. An event is a triple
  \<open>(event_type, child1, child2)\<close> whose type is a one-letter string. Node labels are
  opaque, so the model is polymorphic in them.

  Dictionaries that the code only looks up are maps; dictionaries that the code builds
  and then iterates over are association lists with \<open>AList.update\<close> as item assignment.
  Python integers are \<open>int\<close>; Python floats are the binary64 numbers of the next section.
  Every exception the code can raise is a value of \<open>py_error\<close>; recursion carries the
  number of stack frames still available, and running out of them is \<open>RecursionError\<close>.
  The variables \<open>root\<close> and \<open>count\<close> of the source are written \<open>root_node\<close> and
  \<open>cnt\<close>, since both names are constants of the library.
\<close>

datatype py_error =
  KeyError | IndexError | ValueError | AssertionError | ZeroDivisionError | RecursionError
  | NameError | OverflowError

type_synonym 'n mapping_node = "'n option \<times> 'n option"

type_synonym 'n event = "string \<times> 'n mapping_node \<times> 'n mapping_node"

type_synonym 'n recon_graph = "'n mapping_node \<rightharpoonup> 'n event list"

type_synonym 'n recon_dict = "('n mapping_node \<times> 'n event list) list"

abbreviation no_node :: "'n mapping_node" where
  "no_node \<equiv> (None, None)"

abbreviation contemporary :: "'n event" where
  "contemporary \<equiv> (''C'', no_node, no_node)"

definition event_type :: "'n event \<Rightarrow> string" where
  "event_type ev = fst ev"

definition child1 :: "'n event \<Rightarrow> 'n mapping_node" where
  "child1 ev = fst (snd ev)"

definition child2 :: "'n event \<Rightarrow> 'n mapping_node" where
  "child2 ev = snd (snd ev)"

text \<open>\<open>d.update(other)\<close>: every item of \<open>other\<close> is assigned into \<open>d\<close>, in order.\<close>

definition dict_update :: "('k \<times> 'v) list \<Rightarrow> ('k \<times> 'v) list \<Rightarrow> ('k \<times> 'v) list" where
  "dict_update d other = fold (\<lambda>(k, v) acc. AList.update k v acc) other d"

section \<open>Python floats\<close>

text \<open>
  A Python float is an IEEE 754 binary64 number: a finite value, an infinity or a
  not-a-number. A finite value is the real number it denotes, an integer multiple
  \<open>m * 2 ^ q\<close> of its quantum with \<open>\<bar>m\<bar> < 2 ^ 53\<close> and \<open>- 1074 \<le> q \<le> 971\<close>; the two zeros
  are one value, since they compare equal and nothing here divides by a zero or prints one.
  Every arithmetic operation is the exact operation on the reals followed by rounding to
  the nearest binary64 number, ties to the even significand; a result of magnitude
  \<open>2 ^ 1024\<close> after rounding is an infinity.
\<close>

datatype pyfloat = Finite real | PosInf | NegInf | NaN

definition pow2 :: "int \<Rightarrow> real" where
  "pow2 e = (if 0 \<le> e then 2 ^ nat e else 1 / 2 ^ nat (- e))"

text \<open>
  The exponent \<open>q\<close> of the quantum of a magnitude \<open>a\<close>: the least \<open>q\<close> from \<open>- 1074\<close> with
  \<open>a < 2 ^ (q + 53)\<close>, at most \<open>971\<close>. It is searched upwards and then downwards from the
  exponent \<open>- 52\<close> of the numbers between one and two.
\<close>

function climb :: "real \<Rightarrow> int \<Rightarrow> int" where
  "climb a e = (if e < 971 \<and> pow2 (e + 53) \<le> a then climb a (e + 1) else e)"
  by pat_completeness auto
termination
  by (relation "measure (\<lambda>(a, e). nat (971 - e))") auto

function descend :: "real \<Rightarrow> int \<Rightarrow> int" where
  "descend a e = (if - 1074 < e \<and> a < pow2 (e + 52) then descend a (e - 1) else e)"
  by pat_completeness auto
termination
  by (relation "measure (\<lambda>(a, e). nat (e + 1074))") auto

declare climb.simps [simp del]

declare descend.simps [simp del]

definition quantum :: "real \<Rightarrow> int" where
  "quantum x = (if x = 0 then - 1074 else descend \<bar>x\<bar> (climb \<bar>x\<bar> (- 52)))"

definition round_half_even :: "real \<Rightarrow> int" where
  "round_half_even y =
     (if y - of_int \<lfloor>y\<rfloor> < 1 / 2 then \<lfloor>y\<rfloor>
      else if 1 / 2 < y - of_int \<lfloor>y\<rfloor> then \<lfloor>y\<rfloor> + 1
      else if even \<lfloor>y\<rfloor> then \<lfloor>y\<rfloor> else \<lfloor>y\<rfloor> + 1)"

definition round_double :: "real \<Rightarrow> pyfloat" where
  "round_double x =
     (if pow2 1024 \<le> \<bar>of_int (round_half_even (x / pow2 (quantum x))) * pow2 (quantum x)\<bar>
      then (if 0 < x then PosInf else NegInf)
      else Finite (of_int (round_half_even (x / pow2 (quantum x))) * pow2 (quantum x)))"

fun fneg :: "pyfloat \<Rightarrow> pyfloat" where
  "fneg (Finite x) = Finite (- x)"
| "fneg PosInf = NegInf"
| "fneg NegInf = PosInf"
| "fneg NaN = NaN"

fun fadd :: "pyfloat \<Rightarrow> pyfloat \<Rightarrow> pyfloat" where
  "fadd (Finite x) (Finite y) = round_double (x + y)"
| "fadd NaN b = NaN"
| "fadd a NaN = NaN"
| "fadd PosInf NegInf = NaN"
| "fadd NegInf PosInf = NaN"
| "fadd PosInf b = PosInf"
| "fadd a PosInf = PosInf"
| "fadd NegInf b = NegInf"
| "fadd a NegInf = NegInf"

definition fsub :: "pyfloat \<Rightarrow> pyfloat \<Rightarrow> pyfloat" where
  "fsub a b = fadd a (fneg b)"

fun fmul :: "pyfloat \<Rightarrow> pyfloat \<Rightarrow> pyfloat" where
  "fmul (Finite x) (Finite y) = round_double (x * y)"
| "fmul NaN b = NaN"
| "fmul a NaN = NaN"
| "fmul PosInf (Finite y) = (if y = 0 then NaN else if 0 < y then PosInf else NegInf)"
| "fmul NegInf (Finite y) = (if y = 0 then NaN else if 0 < y then NegInf else PosInf)"
| "fmul (Finite x) PosInf = (if x = 0 then NaN else if 0 < x then PosInf else NegInf)"
| "fmul (Finite x) NegInf = (if x = 0 then NaN else if 0 < x then NegInf else PosInf)"
| "fmul PosInf PosInf = PosInf"
| "fmul NegInf NegInf = PosInf"
| "fmul PosInf NegInf = NegInf"
| "fmul NegInf PosInf = NegInf"

text \<open>The quotient by a float other than zero; Python raises before it divides by a zero.\<close>

fun fdiv :: "pyfloat \<Rightarrow> pyfloat \<Rightarrow> pyfloat" where
  "fdiv (Finite x) (Finite y) = round_double (x / y)"
| "fdiv NaN b = NaN"
| "fdiv a NaN = NaN"
| "fdiv (Finite x) b = Finite 0"
| "fdiv PosInf (Finite y) = (if 0 < y then PosInf else NegInf)"
| "fdiv NegInf (Finite y) = (if 0 < y then NegInf else PosInf)"
| "fdiv a b = NaN"

text \<open>The comparisons \<open>a > b\<close>, \<open>a == b\<close> and \<open>a <= b\<close>: each is false when a side is not a number.\<close>

fun fgt :: "pyfloat \<Rightarrow> pyfloat \<Rightarrow> bool" where
  "fgt (Finite x) (Finite y) = (y < x)"
| "fgt NaN b = False"
| "fgt a NaN = False"
| "fgt PosInf b = (b \<noteq> PosInf)"
| "fgt a PosInf = False"
| "fgt a NegInf = (a \<noteq> NegInf)"
| "fgt NegInf b = False"

definition feq :: "pyfloat \<Rightarrow> pyfloat \<Rightarrow> bool" where
  "feq a b \<longleftrightarrow> a = b \<and> a \<noteq> NaN"

definition fle :: "pyfloat \<Rightarrow> pyfloat \<Rightarrow> bool" where
  "fle a b \<longleftrightarrow> feq a b \<or> fgt b a"

text \<open>
  A number held in the \<open>scores\<close> dictionary is an \<open>int\<close> (line 117 stores a count unconverted)
  or a float. An \<open>int\<close> operand of a float operation is converted first, rounded to the
  nearest float, and \<open>OverflowError\<close> is raised when it is too large for one; \<open>float(x)\<close>
  converts the same way. A zero divisor raises \<open>ZeroDivisionError\<close> after the conversions.
\<close>

datatype pynum = PyInt int | PyFloat pyfloat

definition float_of_int :: "int \<Rightarrow> py_error + pyfloat" where
  "float_of_int n =
     (case round_double (of_int n) of Finite x \<Rightarrow> Inr (Finite x) | _ \<Rightarrow> Inl OverflowError)"

fun py_float :: "pynum \<Rightarrow> py_error + pyfloat" where
  "py_float (PyInt n) = float_of_int n"
| "py_float (PyFloat f) = Inr f"

text \<open>\<open>x != 0\<close>.\<close>

fun nonzero :: "pynum \<Rightarrow> bool" where
  "nonzero (PyInt n) = (n \<noteq> 0)"
| "nonzero (PyFloat f) = (\<not> feq f (Finite 0))"

text \<open>\<open>f / c\<close> and \<open>f * c\<close> for a float \<open>f\<close> and an \<open>int\<close> \<open>c\<close>.\<close>

definition float_over_int :: "pyfloat \<Rightarrow> int \<Rightarrow> py_error + pyfloat" where
  "float_over_int f c =
     (case float_of_int c of
        Inl err \<Rightarrow> Inl err
      | Inr d \<Rightarrow> if d = Finite 0 then Inl ZeroDivisionError else Inr (fdiv f d))"

definition float_times_int :: "pyfloat \<Rightarrow> int \<Rightarrow> py_error + pyfloat" where
  "float_times_int f c =
     (case float_of_int c of Inl err \<Rightarrow> Inl err | Inr d \<Rightarrow> Inr (fmul f d))"

text \<open>\<open>x + f\<close> and \<open>x / f\<close> for a number \<open>x\<close> and a float \<open>f\<close>.\<close>

definition num_plus_float :: "pynum \<Rightarrow> pyfloat \<Rightarrow> py_error + pyfloat" where
  "num_plus_float x f =
     (case py_float x of Inl err \<Rightarrow> Inl err | Inr a \<Rightarrow> Inr (fadd a f))"

definition num_over_float :: "pynum \<Rightarrow> pyfloat \<Rightarrow> py_error + pyfloat" where
  "num_over_float x f =
     (case py_float x of
        Inl err \<Rightarrow> Inl err
      | Inr a \<Rightarrow> if f = Finite 0 then Inl ZeroDivisionError else Inr (fdiv a f))"

section \<open>mapping_node_sort\<close>

text \<open>The two \<open>enumerate\<close> loops that fill the lookup tables (a later duplicate overwrites).\<close>

fun gene_levels :: "nat \<Rightarrow> nat \<Rightarrow> 'n list \<Rightarrow> ('n \<rightharpoonup> nat) \<Rightarrow> ('n \<rightharpoonup> nat)" where
  "gene_levels gene_multiplier i [] tbl = tbl"
| "gene_levels gene_multiplier i (gene_node # rest) tbl =
     gene_levels gene_multiplier (Suc i) rest (tbl(gene_node \<mapsto> i * gene_multiplier))"

fun species_levels :: "nat \<Rightarrow> 'n list \<Rightarrow> ('n \<rightharpoonup> nat) \<Rightarrow> ('n \<rightharpoonup> nat)" where
  "species_levels i [] tbl = tbl"
| "species_levels i (species_node # rest) tbl =
     species_levels (Suc i) rest (tbl(species_node \<mapsto> i))"

text \<open>The sort key of the lambda; \<open>None\<close> stands for the \<open>KeyError\<close> of a failed lookup.\<close>

definition sort_rank :: "('n \<rightharpoonup> nat) \<Rightarrow> ('n \<rightharpoonup> nat) \<Rightarrow> 'n mapping_node \<Rightarrow> nat option" where
  "sort_rank gene_level_lookup species_level_lookup node =
     (case node of
        (Some g, Some s) \<Rightarrow>
          (case gene_level_lookup g of
             None \<Rightarrow> None
           | Some a \<Rightarrow> (case species_level_lookup s of None \<Rightarrow> None | Some b \<Rightarrow> Some (a + b)))
      | _ \<Rightarrow> None)"

definition mapping_node_sort ::
  "'n list \<Rightarrow> 'n list \<Rightarrow> 'n mapping_node list \<Rightarrow> py_error + 'n mapping_node list" where
  "mapping_node_sort ordered_gene_node_list ordered_species_node_list mapping_node_list =
     (let gene_multiplier = length ordered_species_node_list;
          gene_level_lookup = gene_levels gene_multiplier 0 ordered_gene_node_list Map.empty;
          species_level_lookup = species_levels 0 ordered_species_node_list Map.empty
      in if list_all (\<lambda>node. sort_rank gene_level_lookup species_level_lookup node \<noteq> None)
              mapping_node_list
         then Inr (sort_key (\<lambda>node. the (sort_rank gene_level_lookup species_level_lookup node))
                     mapping_node_list)
         else Inl KeyError)"

text \<open>
  The position of a label in an ordering, and the lexicographic comparison the
  documentation of \<open>mapping_node_sort\<close> describes: gene position first, species position second.
\<close>

definition position :: "'n list \<Rightarrow> 'n option \<Rightarrow> nat" where
  "position xs x = length (takeWhile (\<lambda>y. Some y \<noteq> x) xs)"

definition lex_before :: "'n list \<Rightarrow> 'n list \<Rightarrow> 'n mapping_node \<Rightarrow> 'n mapping_node \<Rightarrow> bool" where
  "lex_before genes species a b \<longleftrightarrow>
     position genes (fst a) < position genes (fst b) \<or>
     (position genes (fst a) = position genes (fst b) \<and>
      position species (snd a) \<le> position species (snd b))"

section \<open>count_mprs\<close>

text \<open>
  The memo \<open>counts\<close> is one dictionary keyed by mapping nodes (pairs) and by event nodes
  (triples); the two kinds of key never collide, so the key type is their sum.
\<close>

type_synonym 'n counts = "('n mapping_node + 'n event) \<rightharpoonup> int"

fun count_mprs ::
    "nat \<Rightarrow> 'n mapping_node \<Rightarrow> 'n recon_graph \<Rightarrow> 'n counts \<Rightarrow> py_error + (int \<times> 'n counts)"
  and count_events ::
    "nat \<Rightarrow> 'n event list \<Rightarrow> 'n recon_graph \<Rightarrow> 'n counts \<Rightarrow> int \<Rightarrow> py_error + (int \<times> 'n counts)"
where
  "count_mprs 0 mapping_node dtl_recon_graph counts = Inl RecursionError"
| "count_mprs (Suc depth) mapping_node dtl_recon_graph counts =
     (case counts (Inl mapping_node) of
        Some c \<Rightarrow> Inr (c, counts)
      | None \<Rightarrow>
          if mapping_node = no_node then Inr (1, counts)
          else (case dtl_recon_graph mapping_node of
                  None \<Rightarrow> Inl KeyError
                | Some events \<Rightarrow>
                    (case count_events depth events dtl_recon_graph counts 0 of
                       Inl err \<Rightarrow> Inl err
                     | Inr (cnt, counts') \<Rightarrow> Inr (cnt, counts'(Inl mapping_node \<mapsto> cnt)))))"
| "count_events depth [] dtl_recon_graph counts cnt = Inr (cnt, counts)"
| "count_events depth (eventNode # rest) dtl_recon_graph counts cnt =
     (case count_mprs depth (child1 eventNode) dtl_recon_graph counts of
        Inl err \<Rightarrow> Inl err
      | Inr (c1, counts1) \<Rightarrow>
          (case count_mprs depth (child2 eventNode) dtl_recon_graph counts1 of
             Inl err \<Rightarrow> Inl err
           | Inr (c2, counts2) \<Rightarrow>
               count_events depth rest dtl_recon_graph
                 (counts2(Inr eventNode \<mapsto> c1 * c2)) (cnt + c1 * c2)))"

section \<open>generate_scores and calculate_scores_for_children\<close>

type_synonym 'n scores = "'n mapping_node \<rightharpoonup> pynum"

type_synonym 'n event_scores = "'n event \<rightharpoonup> pyfloat"

text \<open>Lines 93 to 98: the total is accumulated over the nodes whose gene is the gene root.\<close>

fun count_roots ::
  "nat \<Rightarrow> 'n option \<Rightarrow> 'n recon_graph \<Rightarrow> 'n mapping_node list \<Rightarrow> 'n counts \<Rightarrow> int \<Rightarrow>
     py_error + (int \<times> 'n counts)" where
  "count_roots depth gene_root dtl_recon_graph [] counts cnt = Inr (cnt, counts)"
| "count_roots depth gene_root dtl_recon_graph (mappingNode # rest) counts cnt =
     (if fst mappingNode = gene_root
      then (case count_mprs depth mappingNode dtl_recon_graph counts of
              Inl err \<Rightarrow> Inl err
            | Inr (c, counts') \<Rightarrow> count_roots depth gene_root dtl_recon_graph rest counts' (cnt + c))
      else count_roots depth gene_root dtl_recon_graph rest counts cnt)"

text \<open>
  \<open>generate_scores\<close> as committed. Lines 90 to 111 count the total and fill \<open>scores\<close> with
  \<open>0.0\<close>, which cannot fail. Lines 113 to 123 still spell four names the way they were
  written before the module was renamed to snake case, \<open>geneRoot\<close>,
  \<open>calculateScoresForChildren\<close>, \<open>eventScores\<close> and \<open>preorderMappingNodeList\<close>, and
  nothing in the module binds them. The first of them to be evaluated raises \<open>NameError\<close>:
  \<open>geneRoot\<close> at line 116 in the first iteration when the node list is not empty,
  \<open>preorderMappingNodeList\<close> at line 120 otherwise. So once the counting has returned the
  call raises \<open>NameError\<close>, \<open>calculate_scores_for_children\<close> is never called and nothing
  is returned.
\<close>

definition generate_scores ::
  "nat \<Rightarrow> 'n mapping_node list \<Rightarrow> 'n recon_graph \<Rightarrow> 'n option \<Rightarrow>
     py_error + ('n event_scores \<times> int)" where
  "generate_scores depth preorder_mapping_node_list dtl_recon_graph gene_root =
     (case count_roots depth gene_root dtl_recon_graph preorder_mapping_node_list Map.empty 0 of
        Inl err \<Rightarrow> Inl err
      | Inr (cnt, counts) \<Rightarrow> Inl NameError)"

text \<open>The loop of \<open>calculate_scores_for_children\<close> (lines 187 to 195).\<close>

fun score_events ::
  "pyfloat \<Rightarrow> 'n counts \<Rightarrow> 'n event list \<Rightarrow> 'n event_scores \<Rightarrow> 'n scores \<Rightarrow>
     py_error + ('n event_scores \<times> 'n scores)" where
  "score_events multiplier counts [] scored_graph scores = Inr (scored_graph, scores)"
| "score_events multiplier counts (eventNode # rest) scored_graph scores =
     (case counts (Inr eventNode) of
        None \<Rightarrow> Inl KeyError
      | Some c \<Rightarrow>
          (case float_times_int multiplier c of
             Inl err \<Rightarrow> Inl err
           | Inr f \<Rightarrow>
               (case scores (child1 eventNode) of
                  None \<Rightarrow> Inl KeyError
                | Some s1 \<Rightarrow>
                    (case num_plus_float s1 f of
                       Inl err \<Rightarrow> Inl err
                     | Inr t1 \<Rightarrow>
                         (case (scores(child1 eventNode \<mapsto> PyFloat t1)) (child2 eventNode) of
                            None \<Rightarrow> Inl KeyError
                          | Some s2 \<Rightarrow>
                              (case num_plus_float s2 f of
                                 Inl err \<Rightarrow> Inl err
                               | Inr t2 \<Rightarrow>
                                   score_events multiplier counts rest
                                     (scored_graph(eventNode \<mapsto> f))
                                     (scores(child1 eventNode \<mapsto> PyFloat t1,
                                             child2 eventNode \<mapsto> PyFloat t2))))))))"

definition calculate_scores_for_children ::
  "'n mapping_node \<Rightarrow> 'n recon_graph \<Rightarrow> 'n event_scores \<Rightarrow> 'n scores \<Rightarrow> 'n counts \<Rightarrow>
     py_error + ('n event_scores \<times> 'n scores)" where
  "calculate_scores_for_children mapping_node dtl_recon_graph scored_graph scores counts =
     (case dtl_recon_graph mapping_node of
        None \<Rightarrow> Inl KeyError
      | Some events \<Rightarrow>
          (case scores mapping_node of
             None \<Rightarrow> Inl KeyError
           | Some s \<Rightarrow>
               if \<not> nonzero s then Inl AssertionError
               else (case py_float s of
                       Inl err \<Rightarrow> Inl err
                     | Inr fs \<Rightarrow>
                         (case counts (Inl mapping_node) of
                            None \<Rightarrow> Inl KeyError
                          | Some c \<Rightarrow>
                              (case float_over_int fs c of
                                 Inl err \<Rightarrow> Inl err
                               | Inr multiplier \<Rightarrow>
                                   score_events multiplier counts events scored_graph scores)))))"

text \<open>
  What lines 100 to 123 would do if the four unbound names stood for the parameter
  \<open>gene_root\<close>, the function \<open>calculate_scores_for_children\<close>, the local \<open>event_scores\<close>
  and the parameter \<open>preorder_mapping_node_list\<close>, and \<open>DTLReconGraph\<close> for the parameter
  \<open>dtl_recon_graph\<close>. This is not the committed function; it is kept apart under the name
  \<open>generate_scores_names_bound\<close> to show what the second half computes.
  Lines 101 to 107: every listed node and \<open>(None, None)\<close> start at \<open>0.0\<close>.
\<close>

definition init_scores :: "'n mapping_node list \<Rightarrow> 'n scores" where
  "init_scores preorder_mapping_node_list =
     (fold (\<lambda>mappingNode scores. scores(mappingNode \<mapsto> PyFloat (Finite 0)))
        preorder_mapping_node_list Map.empty)
       (no_node \<mapsto> PyFloat (Finite 0))"

text \<open>Lines 113 to 118 with the names bound: the cascade over the nodes in the order given.\<close>

fun cascade ::
  "'n option \<Rightarrow> 'n recon_graph \<Rightarrow> 'n counts \<Rightarrow> 'n mapping_node list \<Rightarrow> 'n event_scores \<Rightarrow>
     'n scores \<Rightarrow> py_error + ('n event_scores \<times> 'n scores)" where
  "cascade gene_root dtl_recon_graph counts [] event_scores scores = Inr (event_scores, scores)"
| "cascade gene_root dtl_recon_graph counts (mappingNode # rest) event_scores scores =
     (if fst mappingNode = gene_root
      then (case counts (Inl mappingNode) of
              None \<Rightarrow> Inl KeyError
            | Some c \<Rightarrow>
                (case calculate_scores_for_children mappingNode dtl_recon_graph event_scores
                        (scores(mappingNode \<mapsto> PyInt c)) counts of
                   Inl err \<Rightarrow> Inl err
                 | Inr (event_scores', scores') \<Rightarrow>
                     cascade gene_root dtl_recon_graph counts rest event_scores' scores'))
      else (case calculate_scores_for_children mappingNode dtl_recon_graph event_scores
                   scores counts of
              Inl err \<Rightarrow> Inl err
            | Inr (event_scores', scores') \<Rightarrow>
                cascade gene_root dtl_recon_graph counts rest event_scores' scores'))"

text \<open>
  Lines 120 to 121 with the names bound: the node scores (not the event scores) are
  divided by \<open>float(count)\<close>.
\<close>

fun normalise_scores :: "int \<Rightarrow> 'n mapping_node list \<Rightarrow> 'n scores \<Rightarrow> py_error + 'n scores" where
  "normalise_scores cnt [] scores = Inr scores"
| "normalise_scores cnt (mappingNode # rest) scores =
     (case scores mappingNode of
        None \<Rightarrow> Inl KeyError
      | Some s \<Rightarrow>
          (case float_of_int cnt of
             Inl err \<Rightarrow> Inl err
           | Inr d \<Rightarrow>
               (case num_over_float s d of
                  Inl err \<Rightarrow> Inl err
                | Inr q \<Rightarrow> normalise_scores cnt rest (scores(mappingNode \<mapsto> PyFloat q)))))"

definition generate_scores_names_bound ::
  "nat \<Rightarrow> 'n mapping_node list \<Rightarrow> 'n recon_graph \<Rightarrow> 'n option \<Rightarrow>
     py_error + ('n event_scores \<times> int)" where
  "generate_scores_names_bound depth preorder_mapping_node_list dtl_recon_graph gene_root =
     (case count_roots depth gene_root dtl_recon_graph preorder_mapping_node_list Map.empty 0 of
        Inl err \<Rightarrow> Inl err
      | Inr (cnt, counts) \<Rightarrow>
          (case cascade gene_root dtl_recon_graph counts preorder_mapping_node_list Map.empty
                  (init_scores preorder_mapping_node_list) of
             Inl err \<Rightarrow> Inl err
           | Inr (event_scores, scores) \<Rightarrow>
               (case normalise_scores cnt preorder_mapping_node_list scores of
                  Inl err \<Rightarrow> Inl err
                | Inr scores' \<Rightarrow> Inr (event_scores, cnt))))"

section \<open>check_subgraph\<close>

fun check_events :: "'n event list \<Rightarrow> 'n event list \<Rightarrow> bool" where
  "check_events recon_events [] = True"
| "check_events recon_events (event # rest) =
     (if event \<notin> set recon_events then False else check_events recon_events rest)"

fun check_nodes :: "'n recon_graph \<Rightarrow> 'n recon_dict \<Rightarrow> 'n mapping_node list \<Rightarrow> bool" where
  "check_nodes recon_graph subrecon [] = True"
| "check_nodes recon_graph subrecon (map_node # rest) =
     (case recon_graph map_node of
        None \<Rightarrow> False
      | Some recon_events \<Rightarrow>
          (case map_of subrecon map_node of
             None \<Rightarrow> False
           | Some events \<Rightarrow>
               if check_events recon_events events
               then check_nodes recon_graph subrecon rest else False))"

definition check_subgraph :: "'n recon_graph \<Rightarrow> 'n recon_dict \<Rightarrow> bool" where
  "check_subgraph recon_graph subrecon = check_nodes recon_graph subrecon (map fst subrecon)"

section \<open>compute_median\<close>

type_synonym 'n sum_freqs = "'n mapping_node \<rightharpoonup> ('n event list \<times> pyfloat)"

text \<open>Lines 232 to 235: the running sum of one event, added and subtracted left to right.\<close>

definition event_sum :: "'n sum_freqs \<Rightarrow> 'n event_scores \<Rightarrow> 'n event \<Rightarrow> py_error + pyfloat" where
  "event_sum sum_freqs event_scores event =
     (if event_type event = ''L''
      then (case sum_freqs (child1 event) of
              None \<Rightarrow> Inl KeyError
            | Some (es1, s1) \<Rightarrow>
                (case event_scores event of
                   None \<Rightarrow> Inl KeyError
                 | Some f \<Rightarrow> Inr (fsub (fadd s1 f) (Finite (1 / 2)))))
      else (case sum_freqs (child1 event) of
              None \<Rightarrow> Inl KeyError
            | Some (es1, s1) \<Rightarrow>
                (case sum_freqs (child2 event) of
                   None \<Rightarrow> Inl KeyError
                 | Some (es2, s2) \<Rightarrow>
                     (case event_scores event of
                        None \<Rightarrow> Inl KeyError
                      | Some f \<Rightarrow> Inr (fsub (fadd (fadd s1 s2) f) (Finite (1 / 2)))))))"

fun event_sums ::
  "'n sum_freqs \<Rightarrow> 'n event_scores \<Rightarrow> 'n event list \<Rightarrow> py_error + ('n event \<times> pyfloat) list" where
  "event_sums sum_freqs event_scores [] = Inr []"
| "event_sums sum_freqs event_scores (event # rest) =
     (case event_sum sum_freqs event_scores event of
        Inl err \<Rightarrow> Inl err
      | Inr t \<Rightarrow>
          (case event_sums sum_freqs event_scores rest of
             Inl err \<Rightarrow> Inl err
           | Inr events \<Rightarrow> Inr ((event, t) # events)))"

text \<open>
  \<open>max(events, key=itemgetter(1))\<close> on a list that is not empty: the first item is the
  candidate, and a later item replaces the candidate when its key compares greater.
\<close>

fun max_by_sum ::
  "('n event \<times> pyfloat) \<Rightarrow> ('n event \<times> pyfloat) list \<Rightarrow> ('n event \<times> pyfloat)" where
  "max_by_sum best [] = best"
| "max_by_sum best (event # rest) =
     (if fgt (snd event) (snd best) then max_by_sum event rest else max_by_sum best rest)"

text \<open>
  One iteration of the loop over \<open>postorder_mapping_nodes\<close> (lines 222 to 252). \<open>max\<close> of
  an empty list raises \<open>ValueError\<close>.
\<close>

definition median_node ::
  "'n recon_graph \<Rightarrow> 'n event_scores \<Rightarrow> 'n sum_freqs \<Rightarrow> 'n mapping_node \<Rightarrow>
     py_error + 'n sum_freqs" where
  "median_node dtl_recon_graph event_scores sum_freqs map_node =
     (case dtl_recon_graph map_node of
        None \<Rightarrow> Inl KeyError
      | Some evs \<Rightarrow>
          if evs = [contemporary]
          then Inr (sum_freqs(map_node \<mapsto> ([contemporary], Finite (1 / 2))))
          else (case event_sums sum_freqs event_scores evs of
                  Inl err \<Rightarrow> Inl err
                | Inr [] \<Rightarrow> Inl ValueError
                | Inr (first # others) \<Rightarrow>
                    (let max_sum = snd (max_by_sum first others);
                         best_events =
                           map fst (filter (\<lambda>event. feq (snd event) max_sum) (first # others))
                     in Inr (sum_freqs(map_node \<mapsto> (best_events, max_sum))))))"

fun median_loop ::
  "'n recon_graph \<Rightarrow> 'n event_scores \<Rightarrow> 'n mapping_node list \<Rightarrow> 'n sum_freqs \<Rightarrow>
     py_error + 'n sum_freqs" where
  "median_loop dtl_recon_graph event_scores [] sum_freqs = Inr sum_freqs"
| "median_loop dtl_recon_graph event_scores (map_node # rest) sum_freqs =
     (case median_node dtl_recon_graph event_scores sum_freqs map_node of
        Inl err \<Rightarrow> Inl err
      | Inr sum_freqs' \<Rightarrow> median_loop dtl_recon_graph event_scores rest sum_freqs')"

text \<open>Line 255: the list comprehension over \<open>mpr_roots\<close>.\<close>

fun possible_root_combos ::
  "'n sum_freqs \<Rightarrow> 'n mapping_node list \<Rightarrow> py_error + ('n mapping_node \<times> pyfloat) list" where
  "possible_root_combos sum_freqs [] = Inr []"
| "possible_root_combos sum_freqs (root_node # rest) =
     (case sum_freqs root_node of
        None \<Rightarrow> Inl KeyError
      | Some (es, s) \<Rightarrow>
          (case possible_root_combos sum_freqs rest of
             Inl err \<Rightarrow> Inl err
           | Inr combos \<Rightarrow> Inr ((root_node, s) # combos)))"

text \<open>Lines 258 to 277: the scan that keeps every root reaching the best sum.\<close>

fun best_roots_loop ::
  "('n mapping_node \<times> pyfloat) list \<Rightarrow> pyfloat option \<Rightarrow> 'n mapping_node list \<Rightarrow>
     pyfloat option \<times> 'n mapping_node list" where
  "best_roots_loop [] best_sum best_roots = (best_sum, best_roots)"
| "best_roots_loop (root_combo # rest) None best_roots =
     best_roots_loop rest (Some (snd root_combo)) (best_roots @ [fst root_combo])"
| "best_roots_loop (root_combo # rest) (Some b) best_roots =
     (if feq (snd root_combo) b
      then best_roots_loop rest (Some b) (best_roots @ [fst root_combo])
      else if fgt (snd root_combo) b
      then best_roots_loop rest (Some (snd root_combo)) [fst root_combo]
      else best_roots_loop rest (Some b) best_roots)"

text \<open>Lines 280 to 283: every entry keeps its event list and drops its sum.\<close>

definition strip_sums :: "'n sum_freqs \<Rightarrow> 'n recon_graph" where
  "strip_sums sum_freqs = (\<lambda>map_node. map_option fst (sum_freqs map_node))"

text \<open>The children of a list of events, \<open>(None, None)\<close> left out.\<close>

definition event_children :: "'n event list \<Rightarrow> 'n mapping_node list" where
  "event_children evs =
     concat (map (\<lambda>ev. filter (\<lambda>c. c \<noteq> no_node) [child1 ev, child2 ev]) evs)"

text \<open>
  Modelled from the spec: \<open>DTLReconGraph.build_dtl_recon_graph\<close> is not among the source
  files. The spec describes it as the function that, given a set of roots and a mapping
  from mapping node to its selected event list, reconstructs a reconciliation-graph-shaped
  dictionary, each mapping node mapped to its retained event set. The model walks from the
  roots: a node not yet in the result is entered with its whole event list, and the walk
  continues into every child of those events other than \<open>(None, None)\<close>.
\<close>

fun build_dtl_recon_graph ::
  "nat \<Rightarrow> 'n mapping_node list \<Rightarrow> 'n recon_graph \<Rightarrow> 'n recon_dict \<Rightarrow> py_error + 'n recon_dict" where
  "build_dtl_recon_graph depth [] event_dict result = Inr result"
| "build_dtl_recon_graph 0 (root_node # rest) event_dict result = Inl RecursionError"
| "build_dtl_recon_graph (Suc depth) (root_node # rest) event_dict result =
     (if map_of result root_node \<noteq> None
      then build_dtl_recon_graph (Suc depth) rest event_dict result
      else (case event_dict root_node of
              None \<Rightarrow> Inl KeyError
            | Some evs \<Rightarrow>
                (case build_dtl_recon_graph depth (event_children evs) event_dict
                        (AList.update root_node evs result) of
                   Inl err \<Rightarrow> Inl err
                 | Inr result' \<Rightarrow> build_dtl_recon_graph (Suc depth) rest event_dict result')))"

text \<open>
  Modelled from the spec: \<open>DTLReconGraph.count_mprs_wrapper\<close> is not among the source
  files. The spec describes it as re-running the counting algorithm restricted to the
  median graph and its roots: the counts of the roots are added up over one shared memo.
\<close>

fun count_mprs_wrapper ::
  "nat \<Rightarrow> 'n mapping_node list \<Rightarrow> 'n recon_graph \<Rightarrow> 'n counts \<Rightarrow> int \<Rightarrow> py_error + int" where
  "count_mprs_wrapper depth [] graph counts cnt = Inr cnt"
| "count_mprs_wrapper depth (root_node # rest) graph counts cnt =
     (case count_mprs depth root_node graph counts of
        Inl err \<Rightarrow> Inl err
      | Inr (c, counts') \<Rightarrow> count_mprs_wrapper depth rest graph counts' (cnt + c))"

definition compute_median ::
  "nat \<Rightarrow> 'n recon_graph \<Rightarrow> 'n event_scores \<Rightarrow> 'n mapping_node list \<Rightarrow> 'n mapping_node list \<Rightarrow>
     py_error + ('n recon_dict \<times> int \<times> 'n mapping_node list)" where
  "compute_median depth dtl_recon_graph event_scores postorder_mapping_nodes mpr_roots =
     (case median_loop dtl_recon_graph event_scores postorder_mapping_nodes Map.empty of
        Inl err \<Rightarrow> Inl err
      | Inr sum_freqs \<Rightarrow>
          (case possible_root_combos sum_freqs mpr_roots of
             Inl err \<Rightarrow> Inl err
           | Inr combos \<Rightarrow>
               (let best_roots = snd (best_roots_loop combos None [])
                in case build_dtl_recon_graph depth best_roots (strip_sums sum_freqs) [] of
                     Inl err \<Rightarrow> Inl err
                   | Inr med_recon_graph \<Rightarrow>
                       if \<not> check_subgraph dtl_recon_graph med_recon_graph
                       then Inl AssertionError
                       else (case count_mprs_wrapper depth best_roots (map_of med_recon_graph)
                                    Map.empty 0 of
                               Inl err \<Rightarrow> Inl err
                             | Inr n_med_recons \<Rightarrow>
                                 Inr (med_recon_graph, n_med_recons, best_roots)))))"

section \<open>build_median_recon_graph and choose_random_median\<close>

fun build_median_recon_graph ::
  "nat \<Rightarrow> 'n recon_graph \<Rightarrow> 'n mapping_node \<Rightarrow> py_error + 'n recon_dict" where
  "build_median_recon_graph 0 event_dict root_node = Inl RecursionError"
| "build_median_recon_graph (Suc depth) event_dict root_node =
     (case event_dict root_node of
        None \<Rightarrow> Inl KeyError
      | Some [] \<Rightarrow> Inl IndexError
      | Some (first # others) \<Rightarrow>
          if event_type first = ''L''
          then (case build_median_recon_graph depth event_dict (child1 first) of
                  Inl err \<Rightarrow> Inl err
                | Inr sub \<Rightarrow> Inr (dict_update [(root_node, first # others)] sub))
          else if event_type first \<in> set [''T'', ''S'', ''D'']
          then (case build_median_recon_graph depth event_dict (child1 first) of
                  Inl err \<Rightarrow> Inl err
                | Inr sub1 \<Rightarrow>
                    (case build_median_recon_graph depth event_dict (child2 first) of
                       Inl err \<Rightarrow> Inl err
                     | Inr sub2 \<Rightarrow>
                         Inr (dict_update (dict_update [(root_node, first # others)] sub1) sub2)))
          else Inr [(root_node, first # others)])"

text \<open>
  \<open>random.choice\<close> is modelled by a supply of draws \<open>rnd\<close> and the number \<open>i\<close> of draws
  already used: the draw picks the index \<open>rnd i mod len\<close>, so every sequence of choices is
  the behaviour under some supply. An empty sequence raises \<open>IndexError\<close>.
\<close>

fun choose_random_median ::
  "nat \<Rightarrow> (nat \<Rightarrow> nat) \<Rightarrow> 'n recon_graph \<Rightarrow> 'n mapping_node \<Rightarrow> nat \<Rightarrow>
     py_error + ('n recon_dict \<times> nat)" where
  "choose_random_median 0 rnd median_recon map_node i = Inl RecursionError"
| "choose_random_median (Suc depth) rnd median_recon map_node i =
     (case median_recon map_node of
        None \<Rightarrow> Inl KeyError
      | Some evs \<Rightarrow>
          if evs = [] then Inl IndexError
          else (case (if event_type (evs ! (rnd i mod length evs)) = ''L''
                      then (case choose_random_median depth rnd median_recon
                                   (child1 (evs ! (rnd i mod length evs))) (Suc i) of
                              Inl err \<Rightarrow> Inl err
                            | Inr (sub, i') \<Rightarrow>
                                Inr (dict_update
                                       [(map_node, [evs ! (rnd i mod length evs)])] sub, i'))
                      else if event_type (evs ! (rnd i mod length evs)) \<in> set [''T'', ''S'', ''D'']
                      then (case choose_random_median depth rnd median_recon
                                   (child1 (evs ! (rnd i mod length evs))) (Suc i) of
                              Inl err \<Rightarrow> Inl err
                            | Inr (sub1, i1) \<Rightarrow>
                                (case choose_random_median depth rnd median_recon
                                        (child2 (evs ! (rnd i mod length evs))) i1 of
                                   Inl err \<Rightarrow> Inl err
                                 | Inr (sub2, i2) \<Rightarrow>
                                     Inr (dict_update
                                            (dict_update
                                               [(map_node, [evs ! (rnd i mod length evs)])] sub1)
                                            sub2, i2)))
                      else Inr ([(map_node, [evs ! (rnd i mod length evs)])], Suc i)) of
                  Inl err \<Rightarrow> Inl err
                | Inr (random_submedian, i') \<Rightarrow>
                    if check_subgraph median_recon random_submedian
                    then Inr (random_submedian, i') else Inl AssertionError))"

section \<open>Notions used to state the properties\<close>

text \<open>
  The running sum stored for a node, the sum over the children of an event that the
  selector looks at (the one child of a loss, both children of any other event), and the
  candidate total of an event: the child sum plus the frequency of the event minus one
  half, each step rounded as lines 233 and 235 compute it.
\<close>

definition running_sum :: "'n sum_freqs \<Rightarrow> 'n mapping_node \<Rightarrow> pyfloat" where
  "running_sum sum_freqs c = snd (the (sum_freqs c))"

definition child_sum :: "'n sum_freqs \<Rightarrow> 'n event \<Rightarrow> pyfloat" where
  "child_sum sum_freqs event =
     (if event_type event = ''L'' then running_sum sum_freqs (child1 event)
      else fadd (running_sum sum_freqs (child1 event)) (running_sum sum_freqs (child2 event)))"

definition candidate_total :: "'n sum_freqs \<Rightarrow> 'n event_scores \<Rightarrow> 'n event \<Rightarrow> pyfloat" where
  "candidate_total sum_freqs event_scores event =
     fsub (fadd (child_sum sum_freqs event) (the (event_scores event))) (Finite (1 / 2))"

section \<open>Example graphs\<close>

text \<open>
  A node offering two loss events, each used by half of the reconciliations, over two
  contemporary leaves.
\<close>

definition tie_root :: "string mapping_node" where
  "tie_root = (Some ''g0'', Some ''s0'')"

definition tie_left :: "string mapping_node" where
  "tie_left = (Some ''g0'', Some ''s1'')"

definition tie_right :: "string mapping_node" where
  "tie_right = (Some ''g0'', Some ''s2'')"

definition tie_graph :: "string recon_graph" where
  "tie_graph =
     [tie_left \<mapsto> [contemporary],
      tie_right \<mapsto> [contemporary],
      tie_root \<mapsto> [(''L'', tie_left, no_node), (''L'', tie_right, no_node)]]"

definition tie_scores :: "string event_scores" where
  "tie_scores =
     [contemporary \<mapsto> Finite 1,
      (''L'', tie_left, no_node) \<mapsto> Finite (1 / 2),
      (''L'', tie_right, no_node) \<mapsto> Finite (1 / 2)]"

definition tie_postorder :: "string mapping_node list" where
  "tie_postorder = [tie_left, tie_right, tie_root]"

definition tie_sum_freqs :: "string sum_freqs" where
  "tie_sum_freqs =
     [tie_left \<mapsto> ([contemporary], Finite (1 / 2)),
      tie_right \<mapsto> ([contemporary], Finite (1 / 2)),
      tie_root \<mapsto> ([(''L'', tie_left, no_node), (''L'', tie_right, no_node)], Finite (1 / 2))]"

text \<open>
  For a list of events whose candidate totals are \<open>t\<close>: the total of the event \<open>max\<close>
  picks, and the entry the selector stores, the events whose total equals it and that total.
\<close>

definition greatest_total :: "('n event \<Rightarrow> pyfloat) \<Rightarrow> 'n event list \<Rightarrow> pyfloat" where
  "greatest_total t evs = snd (max_by_sum (hd evs, t (hd evs)) (map (\<lambda>e. (e, t e)) (tl evs)))"

definition selected :: "('n event \<Rightarrow> pyfloat) \<Rightarrow> 'n event list \<Rightarrow> 'n event list \<times> pyfloat" where
  "selected t evs = (filter (\<lambda>e. feq (t e) (greatest_total t evs)) evs, greatest_total t evs)"

definition tie_loss_left :: "string event" where
  "tie_loss_left = (''L'', tie_left, no_node)"

definition tie_loss_right :: "string event" where
  "tie_loss_right = (''L'', tie_right, no_node)"

text \<open>
  The children \<open>build_median_recon_graph\<close> and \<open>choose_random_median\<close> descend into, and
  the dictionaries that are closed and acyclic along them with no empty event list.
\<close>

definition followed_children :: "'n event \<Rightarrow> 'n mapping_node list" where
  "followed_children ev =
     (if event_type ev = ''L'' then [child1 ev]
      else if event_type ev \<in> set [''T'', ''S'', ''D''] then [child1 ev, child2 ev]
      else [])"

definition path_closed :: "'n recon_graph \<Rightarrow> ('n mapping_node \<Rightarrow> nat) \<Rightarrow> bool" where
  "path_closed event_dict rk \<longleftrightarrow>
     (\<forall>m evs. event_dict m = Some evs \<longrightarrow>
        evs \<noteq> [] \<and>
        (\<forall>ev\<in>set evs. \<forall>c\<in>set (followed_children ev). event_dict c \<noteq> None \<and> rk c < rk m))"

definition agrees :: "'n recon_graph \<Rightarrow> 'n recon_dict \<Rightarrow> bool" where
  "agrees ed d \<longleftrightarrow>
     distinct (map fst d) \<and> (\<forall>k evs. map_of d k = Some evs \<longrightarrow> ed k = Some evs)"

definition closed_under :: "'n recon_graph \<Rightarrow> 'n recon_graph \<Rightarrow> bool" where
  "closed_under ed M \<longleftrightarrow>
     (\<forall>k\<in>dom M. \<forall>c\<in>set (followed_children (hd (the (ed k)))). c \<in> dom M)"

definition tie_rank :: "string mapping_node \<Rightarrow> nat" where
  "tie_rank m = (if m = tie_root then 1 else 0)"

definition drawn_from :: "'n recon_graph \<Rightarrow> 'n recon_dict \<Rightarrow> bool" where
  "drawn_from median_recon d \<longleftrightarrow>
     distinct (map fst d) \<and>
     (\<forall>k evs. map_of d k = Some evs \<longrightarrow>
        (\<exists>e l. evs = [e] \<and> median_recon k = Some l \<and> e \<in> set l))"

text \<open>Every event list of the second dictionary is drawn from the list of the same key in the first.\<close>

definition within_graph :: "'n recon_graph \<Rightarrow> 'n recon_graph \<Rightarrow> bool" where
  "within_graph g ed \<longleftrightarrow>
     (\<forall>k evs. ed k = Some evs \<longrightarrow> (\<exists>gevs. g k = Some gevs \<and> set evs \<subseteq> set gevs))"

text \<open>
  The rank the description of \<open>mapping_node_sort\<close> assigns to a mapping node, the
  orderings that cover a list of mapping nodes, and a small instance.
\<close>

definition rank_of :: "'n list \<Rightarrow> 'n list \<Rightarrow> 'n mapping_node \<Rightarrow> nat" where
  "rank_of genes species node =
     position genes (fst node) * length species + position species (snd node)"

definition covers :: "'n list \<Rightarrow> 'n list \<Rightarrow> 'n mapping_node list \<Rightarrow> bool" where
  "covers genes species nodes =
     list_all (\<lambda>node. case node of
                 (Some g, Some s) \<Rightarrow> g \<in> set genes \<and> s \<in> set species
               | _ \<Rightarrow> False) nodes"

definition sort_genes :: "string list" where
  "sort_genes = [''g0'', ''g1'']"

definition sort_species :: "string list" where
  "sort_species = [''s0'', ''s1'', ''s2'']"

definition sort_nodes :: "string mapping_node list" where
  "sort_nodes =
     [(Some ''g1'', Some ''s0''), (Some ''g0'', Some ''s2''), (Some ''g0'', Some ''s1'')]"

text \<open>
  Graphs closed under event children and ranked (acyclic), the stack budget a node needs,
  the recurrence of the counts, the memo invariant, the count by the recurrence with a
  bound on the depth, the count \<open>count_mprs\<close> returns on an empty memo, and a graph with a
  duplication over two losses.
\<close>

definition ranked_on ::
  "'n mapping_node set \<Rightarrow> 'n recon_graph \<Rightarrow> ('n mapping_node \<Rightarrow> nat) \<Rightarrow> bool" where
  "ranked_on S g rk \<longleftrightarrow>
     no_node \<notin> S \<and>
     (\<forall>m\<in>S. \<exists>evs. g m = Some evs \<and> (\<forall>c\<in>set (event_children evs). c \<in> S \<and> rk c < rk m))"

definition enough :: "nat \<Rightarrow> ('n mapping_node \<Rightarrow> nat) \<Rightarrow> 'n mapping_node set \<Rightarrow> 'n mapping_node \<Rightarrow> bool" where
  "enough depth rk S m \<longleftrightarrow> (m = no_node \<and> 0 < depth) \<or> (m \<in> S \<and> Suc (rk m) < depth)"

definition recurrence ::
  "'n mapping_node set \<Rightarrow> 'n recon_graph \<Rightarrow> ('n mapping_node \<Rightarrow> int) \<Rightarrow> bool" where
  "recurrence S g ref \<longleftrightarrow>
     ref no_node = 1 \<and>
     (\<forall>m\<in>S. ref m = (\<Sum>e\<leftarrow>the (g m). ref (child1 e) * ref (child2 e)))"

definition memo_ok ::
  "'n mapping_node set \<Rightarrow> 'n recon_graph \<Rightarrow> ('n mapping_node \<Rightarrow> int) \<Rightarrow> 'n counts \<Rightarrow> bool" where
  "memo_ok S g ref counts \<longleftrightarrow>
     (\<forall>m c. counts (Inl m) = Some c \<longrightarrow>
        m \<in> S \<and> c = ref m \<and> (\<forall>e\<in>set (the (g m)). counts (Inr e) \<noteq> None)) \<and>
     (\<forall>e c. counts (Inr e) = Some c \<longrightarrow>
        c = ref (child1 e) * ref (child2 e) \<and>
        (\<forall>ch\<in>{child1 e, child2 e}. ch \<noteq> no_node \<longrightarrow> counts (Inl ch) \<noteq> None))"

definition grows :: "'n counts \<Rightarrow> 'n counts \<Rightarrow> bool" where
  "grows counts counts' \<longleftrightarrow> (\<forall>k. counts k \<noteq> None \<longrightarrow> counts' k \<noteq> None)"

fun mpr_count :: "nat \<Rightarrow> 'n recon_graph \<Rightarrow> 'n mapping_node \<Rightarrow> int" where
  "mpr_count 0 g m = (if m = no_node then 1 else 0)"
| "mpr_count (Suc n) g m =
     (if m = no_node then 1
      else (case g m of
              None \<Rightarrow> 0
            | Some evs \<Rightarrow> (\<Sum>e\<leftarrow>evs. mpr_count n g (child1 e) * mpr_count n g (child2 e))))"

definition count_of :: "nat \<Rightarrow> 'n recon_graph \<Rightarrow> 'n mapping_node \<Rightarrow> int" where
  "count_of depth g m =
     (case count_mprs depth m g Map.empty of Inl err \<Rightarrow> 0 | Inr (c, counts) \<Rightarrow> c)"

definition dup_root :: "string mapping_node" where
  "dup_root = (Some ''g0'', Some ''s0'')"

definition dup_left :: "string mapping_node" where
  "dup_left = (Some ''g1'', Some ''s0'')"

definition dup_right :: "string mapping_node" where
  "dup_right = (Some ''g2'', Some ''s0'')"

definition dup_left_a :: "string mapping_node" where
  "dup_left_a = (Some ''g1'', Some ''s1'')"

definition dup_left_b :: "string mapping_node" where
  "dup_left_b = (Some ''g1'', Some ''s2'')"

definition dup_event :: "string event" where
  "dup_event = (''D'', dup_left, dup_right)"

definition dup_graph :: "string recon_graph" where
  "dup_graph =
     [dup_root \<mapsto> [dup_event],
      dup_left \<mapsto> [(''L'', dup_left_a, no_node), (''L'', dup_left_b, no_node)],
      dup_right \<mapsto> [contemporary],
      dup_left_a \<mapsto> [contemporary],
      dup_left_b \<mapsto> [contemporary]]"

definition dup_preorder :: "string mapping_node list" where
  "dup_preorder = [dup_root, dup_left, dup_right, dup_left_a, dup_left_b]"

definition dup_rank :: "string mapping_node \<Rightarrow> nat" where
  "dup_rank m = (if m = dup_root then 2 else if m = dup_left then 1 else 0)"

text \<open>
  Projections of the result of \<open>generate_scores\<close>, and a graph whose only node lists no
  event.
\<close>

definition score_of :: "py_error + ('n event_scores \<times> int) \<Rightarrow> 'n event \<Rightarrow> pyfloat option" where
  "score_of result e = (case result of Inl err \<Rightarrow> None | Inr (event_scores, cnt) \<Rightarrow> event_scores e)"

definition total_of :: "py_error + ('n event_scores \<times> int) \<Rightarrow> int option" where
  "total_of result = (case result of Inl err \<Rightarrow> None | Inr (event_scores, cnt) \<Rightarrow> Some cnt)"

definition lone_root :: "string mapping_node" where
  "lone_root = (Some ''g0'', Some ''s0'')"

definition lone_graph :: "string recon_graph" where
  "lone_graph = [lone_root \<mapsto> []]"

definition lone_counts :: "string counts" where
  "lone_counts = [Inl lone_root \<mapsto> 0]"


text \<open>
  A node offering two loss events whose candidate totals agree as sums of the decimal
  fractions \<open>0.6\<close>, \<open>0.8\<close> and \<open>0.9\<close> but differ as doubles: the first loss leads to a node
  with one loss of frequency \<open>0.6\<close> over a contemporary leaf and has frequency \<open>0.8\<close>, the
  second leads to a contemporary leaf and has frequency \<open>0.9\<close>. A float literal is the
  double nearest to the decimal fraction.
\<close>

definition split_root :: "string mapping_node" where
  "split_root = (Some ''g0'', Some ''s0'')"

definition split_mid :: "string mapping_node" where
  "split_mid = (Some ''g0'', Some ''s1'')"

definition split_leaf :: "string mapping_node" where
  "split_leaf = (Some ''g0'', Some ''s2'')"

definition split_other :: "string mapping_node" where
  "split_other = (Some ''g0'', Some ''s3'')"

definition split_graph :: "string recon_graph" where
  "split_graph =
     [split_leaf \<mapsto> [contemporary],
      split_other \<mapsto> [contemporary],
      split_mid \<mapsto> [(''L'', split_leaf, no_node)],
      split_root \<mapsto> [(''L'', split_mid, no_node), (''L'', split_other, no_node)]]"

definition split_scores :: "string event_scores" where
  "split_scores =
     [contemporary \<mapsto> Finite 1,
      (''L'', split_leaf, no_node) \<mapsto> round_double (6 / 10),
      (''L'', split_mid, no_node) \<mapsto> round_double (8 / 10),
      (''L'', split_other, no_node) \<mapsto> round_double (9 / 10)]"

definition split_postorder :: "string mapping_node list" where
  "split_postorder = [split_leaf, split_other, split_mid, split_root]"
section \<open>Evaluation of the examples\<close>

lemmas float_eval =
  round_double_def quantum_def round_half_even_def pow2_def climb.simps descend.simps
  fsub_def feq_def float_of_int_def float_over_int_def float_times_int_def
  num_plus_float_def num_over_float_def

lemmas tie_defs =
  tie_graph_def tie_scores_def tie_postorder_def tie_sum_freqs_def
  tie_root_def tie_left_def tie_right_def

lemmas model_defs =
  median_node_def event_sum_def event_type_def child1_def child2_def Let_def

lemma round_double_half: "round_double (1 / 2) = Finite (1 / 2)"
  by (simp add: float_eval)

lemma round_double_one: "round_double 1 = Finite 1"
  by (simp add: float_eval)

lemma tie_median_loop:
  "median_loop tie_graph tie_scores tie_postorder Map.empty = Inr tie_sum_freqs"
  by (simp add: tie_defs model_defs fsub_def feq_def round_double_half round_double_one)

lemma tie_median_loop_other_scores:
  "median_loop tie_graph (tie_scores(contemporary \<mapsto> Finite (1 / 4))) tie_postorder Map.empty
     = Inr tie_sum_freqs"
  by (simp add: tie_defs model_defs fsub_def feq_def round_double_half round_double_one)

lemma tie_compute_median:
  "compute_median 3 tie_graph tie_scores tie_postorder [tie_root]
     = Inr ([(tie_root, [tie_loss_left, tie_loss_right]), (tie_left, [contemporary]),
             (tie_right, [contemporary])], 2, [tie_root])"
  unfolding compute_median_def tie_median_loop
  by (simp add: tie_defs tie_loss_left_def tie_loss_right_def strip_sums_def
      event_children_def child1_def child2_def check_subgraph_def numeral_3_eq_3)

text \<open>
  The literals \<open>0.6\<close>, \<open>0.8\<close> and \<open>0.9\<close>, and the loop on the graph where rounding
  separates two candidate totals: Python computes \<open>(0.5 + 0.6) - 0.5 = 0.6000000000000001\<close>,
  then \<open>0.9000000000000001\<close> for the first loss of the root and \<open>0.8999999999999999\<close>
  for the second, and keeps the first loss only.
\<close>

lemma float_literals:
  "round_double (6 / 10) = Finite (5404319552844595 / 2 ^ 53)"
  "round_double (8 / 10) = Finite (3602879701896397 / 2 ^ 52)"
  "round_double (9 / 10) = Finite (8106479329266893 / 2 ^ 53)"
  by (simp_all add: float_eval)

lemma split_sums:
  "fsub (fadd (Finite (1 / 2)) (Finite (5404319552844595 / 2 ^ 53))) (Finite (1 / 2))
     = Finite (1351079888211149 / 2 ^ 51)"
  "fsub (fadd (Finite (1351079888211149 / 2 ^ 51)) (Finite (3602879701896397 / 2 ^ 52)))
        (Finite (1 / 2))
     = Finite (4053239664633447 / 2 ^ 52)"
  "fsub (fadd (Finite (1 / 2)) (Finite (8106479329266893 / 2 ^ 53))) (Finite (1 / 2))
     = Finite (2026619832316723 / 2 ^ 51)"
  by (simp_all add: float_eval)

lemma split_median_loop:
  "\<exists>sum_freqs.
     median_loop split_graph split_scores split_postorder Map.empty = Inr sum_freqs \<and>
     sum_freqs split_mid = Some ([(''L'', split_leaf, no_node)], Finite (1351079888211149 / 2 ^ 51)) \<and>
     sum_freqs split_root = Some ([(''L'', split_mid, no_node)], Finite (4053239664633447 / 2 ^ 52))"
  by (simp add: split_graph_def split_scores_def split_postorder_def split_root_def
      split_mid_def split_leaf_def split_other_def model_defs float_eval)

section \<open>Contemporary nodes in compute_median\<close>

lemma median_node_upd:
  "median_node g es sf x = Inr sf' \<Longrightarrow> \<exists>v. sf' = sf(x \<mapsto> v)"
  by (auto simp: median_node_def Let_def split: option.splits if_splits sum.splits list.splits)

lemma median_node_contemporary:
  "g m = Some [contemporary] \<Longrightarrow>
   median_node g es sf m = Inr (sf(m \<mapsto> ([contemporary], Finite (1 / 2))))"
  by (simp add: median_node_def)

lemma median_loop_contemporary:
  "median_loop g es nodes sf = Inr sf' \<Longrightarrow> g m = Some [contemporary] \<Longrightarrow>
   m \<in> set nodes \<or> sf m = Some ([contemporary], Finite (1 / 2)) \<Longrightarrow>
   sf' m = Some ([contemporary], Finite (1 / 2))"
proof (induction nodes arbitrary: sf)
  case Nil
  then show ?case by simp
next
  case (Cons x xs)
  from Cons.prems(1) obtain sf1 where
    step: "median_node g es sf x = Inr sf1" and rest: "median_loop g es xs sf1 = Inr sf'"
    by (auto split: sum.splits)
  have "m \<in> set xs \<or> sf1 m = Some ([contemporary], Finite (1 / 2))"
  proof (cases "x = m")
    case True
    with step Cons.prems(2) show ?thesis by (auto simp add: median_node_contemporary)
  next
    case False
    from median_node_upd[OF step] obtain v where "sf1 = sf(x \<mapsto> v)" by blast
    with False Cons.prems(3) show ?thesis by auto
  qed
  with Cons.IH[OF rest Cons.prems(2)] show ?case .
qed

text \<open>
  Claim C10. A mapping node whose event list is exactly the single contemporary event gets
  the entry \<open>([('C', (None, None), (None, None))], 0.5)\<close> in \<open>sum_freqs\<close>: the loop step
  writes it whatever \<open>event_scores\<close> holds, and two completed runs of the loop of
  \<open>compute_median\<close> over the same graph and node list, with any two score dictionaries,
  agree on the entry of such a node.
\<close>

theorem contemporary_node_ignores_event_scores:
  assumes "dtl_recon_graph map_node = Some [contemporary]"
    and "map_node \<in> set postorder_mapping_nodes"
    and "median_loop dtl_recon_graph event_scores postorder_mapping_nodes Map.empty
           = Inr sum_freqs"
    and "median_loop dtl_recon_graph event_scores' postorder_mapping_nodes Map.empty
           = Inr sum_freqs'"
  shows "median_node dtl_recon_graph event_scores sf map_node
           = Inr (sf(map_node \<mapsto> ([contemporary], Finite (1 / 2))))
       \<and> sum_freqs map_node = Some ([contemporary], Finite (1 / 2))
       \<and> sum_freqs' map_node = sum_freqs map_node"
proof -
  have a: "sum_freqs map_node = Some ([contemporary], Finite (1 / 2))"
    using median_loop_contemporary[OF assms(3) assms(1)] assms(2) by blast
  have b: "sum_freqs' map_node = Some ([contemporary], Finite (1 / 2))"
    using median_loop_contemporary[OF assms(4) assms(1)] assms(2) by blast
  show ?thesis using a b assms(1) by (simp add: median_node_contemporary)
qed

theorem contemporary_node_ignores_event_scores_witness:
  "tie_graph tie_left = Some [contemporary]
   \<and> tie_left \<in> set tie_postorder
   \<and> median_loop tie_graph tie_scores tie_postorder Map.empty = Inr tie_sum_freqs
   \<and> median_loop tie_graph (tie_scores(contemporary \<mapsto> Finite (1 / 4))) tie_postorder Map.empty
        = Inr tie_sum_freqs
   \<and> median_node tie_graph tie_scores Map.empty tie_left
        = Inr [tie_left \<mapsto> ([contemporary], Finite (1 / 2))]
   \<and> tie_sum_freqs tie_left = Some ([contemporary], Finite (1 / 2))"
proof -
  have h1: "tie_graph tie_left = Some [contemporary]"
    by (simp add: tie_defs)
  have h2: "tie_left \<in> set tie_postorder"
    by (simp add: tie_defs)
  show ?thesis
    using contemporary_node_ignores_event_scores
            [OF h1 h2 tie_median_loop tie_median_loop_other_scores, of Map.empty]
      h1 h2 tie_median_loop tie_median_loop_other_scores
    by simp
qed

section \<open>The selection made by compute_median\<close>

lemma feq_sym: "feq a b = feq b a"
  by (auto simp: feq_def)

lemma float_trichotomy: "a \<noteq> NaN \<Longrightarrow> b \<noteq> NaN \<Longrightarrow> feq a b \<or> fgt a b \<or> fgt b a"
  by (cases a; cases b) (auto simp: feq_def)

lemma fgt_fle: "fgt a b \<Longrightarrow> fle b a"
  by (simp add: fle_def)

lemma not_fgt_fle: "a \<noteq> NaN \<Longrightarrow> b \<noteq> NaN \<Longrightarrow> \<not> fgt a b \<Longrightarrow> fle a b"
  using float_trichotomy[of a b] by (auto simp: fle_def)

lemma fle_refl: "a \<noteq> NaN \<Longrightarrow> fle a a"
  by (simp add: fle_def feq_def)

lemma fle_trans: "fle a b \<Longrightarrow> fle b c \<Longrightarrow> fle a c"
  by (cases a; cases b; cases c) (auto simp: fle_def feq_def)

lemma fgt_above: "fgt a b \<Longrightarrow> fle a c \<Longrightarrow> \<not> feq c b \<and> fle b c"
  by (cases a; cases b; cases c) (auto simp: fle_def feq_def)

lemma fgt_below: "fgt b a \<Longrightarrow> fle b c \<Longrightarrow> \<not> feq a c \<and> fle a c"
  by (cases a; cases b; cases c) (auto simp: fle_def feq_def)

lemma max_by_sum_greatest:
  "snd best \<noteq> NaN \<Longrightarrow> \<forall>p\<in>set rest. snd p \<noteq> NaN \<Longrightarrow>
   snd (max_by_sum best rest) \<in> snd ` set (best # rest) \<and>
   fle (snd best) (snd (max_by_sum best rest)) \<and>
   (\<forall>p\<in>set rest. fle (snd p) (snd (max_by_sum best rest)))"
proof (induction rest arbitrary: best)
  case Nil
  then show ?case by (simp add: fle_refl)
next
  case (Cons p rest)
  have pn: "snd p \<noteq> NaN" and rn: "\<forall>q\<in>set rest. snd q \<noteq> NaN"
    using Cons.prems(2) by simp_all
  show ?case
  proof (cases "fgt (snd p) (snd best)")
    case True
    from Cons.IH[OF pn rn] have ih: "snd (max_by_sum p rest) \<in> snd ` set (p # rest)"
      "fle (snd p) (snd (max_by_sum p rest))"
      "\<forall>q\<in>set rest. fle (snd q) (snd (max_by_sum p rest))"
      by blast+
    have "fle (snd best) (snd (max_by_sum p rest))"
      by (rule fle_trans[OF fgt_fle[OF True] ih(2)])
    with ih True show ?thesis by auto
  next
    case False
    from Cons.IH[OF Cons.prems(1) rn] have ih: "snd (max_by_sum best rest) \<in> snd ` set (best # rest)"
      "fle (snd best) (snd (max_by_sum best rest))"
      "\<forall>q\<in>set rest. fle (snd q) (snd (max_by_sum best rest))"
      by blast+
    have "fle (snd p) (snd best)" by (rule not_fgt_fle[OF pn Cons.prems(1) False])
    then have "fle (snd p) (snd (max_by_sum best rest))" by (rule fle_trans[OF _ ih(2)])
    with ih False show ?thesis by auto
  qed
qed

lemma greatest_total_greatest:
  assumes "evs \<noteq> []" and "\<forall>e\<in>set evs. t e \<noteq> NaN"
  shows "greatest_total t evs \<in> t ` set evs \<and> (\<forall>e\<in>set evs. fle (t e) (greatest_total t evs))"
proof -
  from assms(1) obtain e es where evs: "evs = e # es" by (cases evs) auto
  let ?M = "snd (max_by_sum (e, t e) (map (\<lambda>e. (e, t e)) es))"
  have a: "snd (e, t e) \<noteq> NaN" using assms(2) evs by simp
  have b: "\<forall>p\<in>set (map (\<lambda>e. (e, t e)) es). snd p \<noteq> NaN" using assms(2) evs by simp
  note g = max_by_sum_greatest[OF a b]
  have m: "?M \<in> snd ` set ((e, t e) # map (\<lambda>e. (e, t e)) es)" using g by blast
  have le0: "fle (t e) ?M" using g by simp
  have le: "\<forall>p\<in>set (map (\<lambda>e. (e, t e)) es). fle (snd p) ?M" using g by blast
  have img: "snd ` set ((e, t e) # map (\<lambda>e. (e, t e)) es) = t ` set evs"
    unfolding evs by (auto simp: image_iff)
  have gt: "greatest_total t evs = ?M" unfolding greatest_total_def evs by simp
  have "?M \<in> t ` set evs" using m unfolding img .
  moreover have "\<forall>x\<in>set evs. fle (t x) ?M" using le0 le unfolding evs by simp
  ultimately show ?thesis unfolding gt by blast
qed

lemma event_sum_candidate:
  assumes "event_sum sf es e = Inr t"
  shows "t = candidate_total sf es e \<and> sf (child1 e) \<noteq> None \<and>
         (event_type e \<noteq> ''L'' \<longrightarrow> sf (child2 e) \<noteq> None)"
  using assms
  by (auto simp: event_sum_def candidate_total_def child_sum_def running_sum_def
      split: if_splits option.splits prod.splits)

lemma event_sums_candidates:
  "event_sums sf es evs = Inr ts \<Longrightarrow>
   ts = map (\<lambda>e. (e, candidate_total sf es e)) evs \<and>
   (\<forall>e\<in>set evs. sf (child1 e) \<noteq> None \<and> (event_type e \<noteq> ''L'' \<longrightarrow> sf (child2 e) \<noteq> None))"
proof (induction evs arbitrary: ts)
  case Nil
  then show ?case by simp
next
  case (Cons e evs)
  from Cons.prems(1) obtain t ts' where
    t: "event_sum sf es e = Inr t" and ts': "event_sums sf es evs = Inr ts'"
    and eq: "ts = (e, t) # ts'"
    by (auto split: sum.splits)
  from event_sum_candidate[OF t] Cons.IH[OF ts'] eq
  show ?case by simp
qed

lemma filter_pairs:
  "map fst (filter (\<lambda>p. P (snd p)) (map (\<lambda>e. (e, f e)) evs)) = filter (\<lambda>e. P (f e)) evs"
  by (induction evs) auto

lemma median_node_select:
  assumes "median_node g es sf x = Inr sf'" and "g x = Some evs" and "evs \<noteq> [contemporary]"
  shows "evs \<noteq> [] \<and> sf' = sf(x \<mapsto> selected (candidate_total sf es) evs) \<and>
         (\<forall>e\<in>set evs. sf (child1 e) \<noteq> None \<and> (event_type e \<noteq> ''L'' \<longrightarrow> sf (child2 e) \<noteq> None))"
proof -
  let ?t = "candidate_total sf es"
  from assms(1,2,3) obtain ts where ts: "event_sums sf es evs = Inr ts"
    by (auto simp: median_node_def split: sum.splits)
  from event_sums_candidates[OF ts]
  have tseq: "ts = map (\<lambda>e. (e, ?t e)) evs"
    and look: "\<forall>e\<in>set evs. sf (child1 e) \<noteq> None \<and> (event_type e \<noteq> ''L'' \<longrightarrow> sf (child2 e) \<noteq> None)"
    by blast+
  from assms(1,2,3) ts obtain first others where fo: "ts = first # others"
    by (auto simp: median_node_def split: list.splits)
  with tseq obtain e0 es0 where evs: "evs = e0 # es0" by (cases evs) auto
  have first: "first = (e0, ?t e0)" and others: "others = map (\<lambda>e. (e, ?t e)) es0"
    using fo tseq evs by simp_all
  have mx: "snd (max_by_sum first others) = greatest_total ?t evs"
    unfolding greatest_total_def first others evs by simp
  from assms(1,2,3) ts fo
  have "sf' = sf(x \<mapsto> (map fst (filter (\<lambda>p. feq (snd p) (snd (max_by_sum first others))) ts),
                         snd (max_by_sum first others)))"
    by (auto simp: median_node_def Let_def)
  then have "sf' = sf(x \<mapsto> selected ?t evs)"
    unfolding mx selected_def unfolding tseq
    using filter_pairs[of "\<lambda>v. feq v (greatest_total ?t evs)" ?t evs] by simp
  with look evs show ?thesis by blast
qed

lemma candidate_total_cong:
  "sf' (child1 e) = sf (child1 e) \<Longrightarrow> (event_type e \<noteq> ''L'' \<longrightarrow> sf' (child2 e) = sf (child2 e)) \<Longrightarrow>
   candidate_total sf' es e = candidate_total sf es e"
  by (auto simp: candidate_total_def child_sum_def running_sum_def)

lemma selected_cong:
  assumes "evs \<noteq> []" and "\<forall>e\<in>set evs. t' e = t e"
  shows "selected t' evs = selected t evs"
proof -
  from assms(1) obtain e es where evs: "evs = e # es" by (cases evs) auto
  have m: "map (\<lambda>e. (e, t' e)) es = map (\<lambda>e. (e, t e)) es"
    using assms(2) evs by (intro map_cong) auto
  have h: "t' e = t e" using assms(2) evs by simp
  have g: "greatest_total t' evs = greatest_total t evs"
    unfolding greatest_total_def evs list.sel m h ..
  have "filter (\<lambda>e. feq (t' e) (greatest_total t evs)) evs
      = filter (\<lambda>e. feq (t e) (greatest_total t evs)) evs"
    using assms(2) by (intro filter_cong) auto
  then show ?thesis unfolding selected_def g by simp
qed

lemma median_loop_snoc:
  "median_loop g es (xs @ [x]) sf0 =
     (case median_loop g es xs sf0 of Inl err \<Rightarrow> Inl err | Inr sf1 \<Rightarrow> median_node g es sf1 x)"
  by (induction xs arbitrary: sf0) (auto split: sum.splits)

lemma median_loop_invariant:
  "median_loop g es nodes Map.empty = Inr sf \<Longrightarrow> distinct nodes \<Longrightarrow>
   dom sf = set nodes \<and>
   (\<forall>m\<in>set nodes. \<forall>evs. g m = Some evs \<longrightarrow> evs \<noteq> [contemporary] \<longrightarrow>
      evs \<noteq> [] \<and> sf m = Some (selected (candidate_total sf es) evs) \<and>
      (\<forall>e\<in>set evs. child1 e \<in> set nodes \<and> (event_type e \<noteq> ''L'' \<longrightarrow> child2 e \<in> set nodes)))"
proof (induction nodes arbitrary: sf rule: rev_induct)
  case Nil
  then show ?case by simp
next
  case (snoc x xs)
  from snoc.prems(1) obtain sf1 where
    loop: "median_loop g es xs Map.empty = Inr sf1" and step: "median_node g es sf1 x = Inr sf"
    by (auto simp: median_loop_snoc split: sum.splits)
  from snoc.prems have dx: "distinct xs" "x \<notin> set xs"
    by auto
  from snoc.IH[OF loop dx(1)] have dom1: "dom sf1 = set xs"
    and inv1: "\<forall>m\<in>set xs. \<forall>evs. g m = Some evs \<longrightarrow> evs \<noteq> [contemporary] \<longrightarrow>
        evs \<noteq> [] \<and> sf1 m = Some (selected (candidate_total sf1 es) evs) \<and>
        (\<forall>e\<in>set evs. child1 e \<in> set xs \<and> (event_type e \<noteq> ''L'' \<longrightarrow> child2 e \<in> set xs))"
    by blast+
  from median_node_upd[OF step] obtain v where sfv: "sf = sf1(x \<mapsto> v)" by blast
  have dom: "dom sf = set (xs @ [x])" using sfv dom1 by auto
  have keep: "candidate_total sf es e = candidate_total sf1 es e"
    if "child1 e \<in> set xs" "event_type e \<noteq> ''L'' \<longrightarrow> child2 e \<in> set xs" for e
  proof (rule candidate_total_cong)
    from that(1) dx(2) show "sf (child1 e) = sf1 (child1 e)" unfolding sfv by auto
    show "event_type e \<noteq> ''L'' \<longrightarrow> sf (child2 e) = sf1 (child2 e)"
    proof
      assume "event_type e \<noteq> ''L''"
      with that(2) have "child2 e \<in> set xs" by blast
      with dx(2) show "sf (child2 e) = sf1 (child2 e)" unfolding sfv by auto
    qed
  qed
  have "\<forall>evs. g m = Some evs \<longrightarrow> evs \<noteq> [contemporary] \<longrightarrow>
      evs \<noteq> [] \<and> sf m = Some (selected (candidate_total sf es) evs) \<and>
      (\<forall>e\<in>set evs. child1 e \<in> set (xs @ [x]) \<and>
         (event_type e \<noteq> ''L'' \<longrightarrow> child2 e \<in> set (xs @ [x])))"
    if m: "m \<in> set (xs @ [x])" for m
  proof (intro allI impI)
    fix evs assume gm: "g m = Some evs" and nc: "evs \<noteq> [contemporary]"
    have sel1: "evs \<noteq> [] \<and> sf m = Some (selected (candidate_total sf1 es) evs) \<and>
        (\<forall>e\<in>set evs. child1 e \<in> set xs \<and> (event_type e \<noteq> ''L'' \<longrightarrow> child2 e \<in> set xs))"
    proof (cases "m = x")
      case True
      from median_node_select[OF step gm[unfolded True] nc] have ne: "evs \<noteq> []"
        and sfeq: "sf = sf1(x \<mapsto> selected (candidate_total sf1 es) evs)"
        and look: "\<forall>e\<in>set evs. sf1 (child1 e) \<noteq> None \<and>
            (event_type e \<noteq> ''L'' \<longrightarrow> sf1 (child2 e) \<noteq> None)"
        by blast+
      have "\<forall>e\<in>set evs. child1 e \<in> set xs \<and> (event_type e \<noteq> ''L'' \<longrightarrow> child2 e \<in> set xs)"
        using look dom1 by (metis domIff)
      moreover have "sf m = Some (selected (candidate_total sf1 es) evs)"
        using sfeq True by simp
      ultimately show ?thesis using ne by blast
    next
      case False
      with m have mxs: "m \<in> set xs" by simp
      from inv1 mxs gm nc have ne: "evs \<noteq> []"
        and s1: "sf1 m = Some (selected (candidate_total sf1 es) evs)"
        and kids: "\<forall>e\<in>set evs. child1 e \<in> set xs \<and>
            (event_type e \<noteq> ''L'' \<longrightarrow> child2 e \<in> set xs)"
        by blast+
      have "sf m = sf1 m" using sfv False by simp
      with ne s1 kids show ?thesis by simp
    qed
    then have ne: "evs \<noteq> []" and s: "sf m = Some (selected (candidate_total sf1 es) evs)"
      and kids: "\<forall>e\<in>set evs. child1 e \<in> set xs \<and>
          (event_type e \<noteq> ''L'' \<longrightarrow> child2 e \<in> set xs)"
      by blast+
    have "\<forall>e\<in>set evs. candidate_total sf es e = candidate_total sf1 es e"
      using kids keep by blast
    from selected_cong[OF ne this] s
    have "sf m = Some (selected (candidate_total sf es) evs)" by simp
    with ne kids
    show "evs \<noteq> [] \<and> sf m = Some (selected (candidate_total sf es) evs) \<and>
      (\<forall>e\<in>set evs. child1 e \<in> set (xs @ [x]) \<and>
         (event_type e \<noteq> ''L'' \<longrightarrow> child2 e \<in> set (xs @ [x])))"
      by simp
  qed
  with dom show ?case by blast
qed

lemma best_roots_loop_Some:
  "b \<noteq> NaN \<Longrightarrow> \<forall>p\<in>set cs. snd p \<noteq> NaN \<Longrightarrow>
   \<exists>M. best_roots_loop cs (Some b) br =
         (Some M, (if feq M b then br else []) @ map fst (filter (\<lambda>p. feq (snd p) M) cs)) \<and>
       (M = b \<or> M \<in> snd ` set cs) \<and> fle b M \<and> (\<forall>p\<in>set cs. fle (snd p) M)"
proof (induction cs arbitrary: b br)
  case Nil
  then show ?case by (simp add: fle_refl feq_def)
next
  case (Cons p cs)
  have pn: "snd p \<noteq> NaN" and cn: "\<forall>q\<in>set cs. snd q \<noteq> NaN"
    using Cons.prems(2) by simp_all
  consider (eq) "feq (snd p) b" | (gt) "\<not> feq (snd p) b" "fgt (snd p) b"
    | (lt) "\<not> feq (snd p) b" "\<not> fgt (snd p) b" by blast
  then show ?case
  proof cases
    case eq
    then have pb: "snd p = b" by (simp add: feq_def)
    from Cons.IH[OF Cons.prems(1) cn, of "br @ [fst p]"] obtain M where
      run: "best_roots_loop cs (Some b) (br @ [fst p]) =
         (Some M, (if feq M b then br @ [fst p] else [])
                  @ map fst (filter (\<lambda>p. feq (snd p) M) cs))"
      and mem: "M = b \<or> M \<in> snd ` set cs" and le: "fle b M"
      and all: "\<forall>q\<in>set cs. fle (snd q) M"
      by blast
    have "best_roots_loop (p # cs) (Some b) br =
         (Some M, (if feq M b then br else [])
                  @ map fst (filter (\<lambda>p. feq (snd p) M) (p # cs)))"
      using eq run pb by (auto simp: feq_sym[of b M])
    moreover have "\<forall>q\<in>set (p # cs). fle (snd q) M" using all le pb by simp
    ultimately show ?thesis using mem le by auto
  next
    case gt
    from Cons.IH[OF pn cn, of "[fst p]"] obtain M where
      run: "best_roots_loop cs (Some (snd p)) [fst p] =
         (Some M, (if feq M (snd p) then [fst p] else [])
                  @ map fst (filter (\<lambda>p. feq (snd p) M) cs))"
      and mem: "M = snd p \<or> M \<in> snd ` set cs" and le: "fle (snd p) M"
      and all: "\<forall>q\<in>set cs. fle (snd q) M"
      by blast
    from fgt_above[OF gt(2) le] have nb: "\<not> feq M b" and bM: "fle b M" by blast+
    have "best_roots_loop (p # cs) (Some b) br =
         (Some M, (if feq M b then br else [])
                  @ map fst (filter (\<lambda>p. feq (snd p) M) (p # cs)))"
      using gt run nb by (auto simp: feq_sym[of M "snd p"])
    moreover have "\<forall>q\<in>set (p # cs). fle (snd q) M" using all le by simp
    ultimately show ?thesis using mem bM by auto
  next
    case lt
    have bp: "fgt b (snd p)"
      using float_trichotomy[OF pn Cons.prems(1)] lt by blast
    from Cons.IH[OF Cons.prems(1) cn, of br] obtain M where
      run: "best_roots_loop cs (Some b) br =
         (Some M, (if feq M b then br else [])
                  @ map fst (filter (\<lambda>p. feq (snd p) M) cs))"
      and mem: "M = b \<or> M \<in> snd ` set cs" and le: "fle b M"
      and all: "\<forall>q\<in>set cs. fle (snd q) M"
      by blast
    from fgt_below[OF bp le] have np: "\<not> feq (snd p) M" and pM: "fle (snd p) M" by blast+
    have "best_roots_loop (p # cs) (Some b) br =
         (Some M, (if feq M b then br else [])
                  @ map fst (filter (\<lambda>p. feq (snd p) M) (p # cs)))"
      using lt run np by auto
    moreover have "\<forall>q\<in>set (p # cs). fle (snd q) M" using all pM by simp
    ultimately show ?thesis using mem le by auto
  qed
qed

lemma best_roots_loop_None:
  assumes "cs \<noteq> []" and "\<forall>p\<in>set cs. snd p \<noteq> NaN"
  shows "\<exists>M. best_roots_loop cs None [] = (Some M, map fst (filter (\<lambda>p. feq (snd p) M) cs)) \<and>
           M \<in> snd ` set cs \<and> (\<forall>p\<in>set cs. fle (snd p) M)"
proof -
  from assms(1) obtain p rest where cs: "cs = p # rest" by (cases cs) auto
  have pn: "snd p \<noteq> NaN" and rn: "\<forall>q\<in>set rest. snd q \<noteq> NaN" using assms(2) cs by simp_all
  from best_roots_loop_Some[OF pn rn, of "[fst p]"] obtain M where
    run: "best_roots_loop rest (Some (snd p)) [fst p] =
       (Some M, (if feq M (snd p) then [fst p] else [])
                @ map fst (filter (\<lambda>p. feq (snd p) M) rest))"
    and mem: "M = snd p \<or> M \<in> snd ` set rest" and le: "fle (snd p) M"
    and all: "\<forall>q\<in>set rest. fle (snd q) M"
    by blast
  have "best_roots_loop cs None [] = (Some M, map fst (filter (\<lambda>p. feq (snd p) M) cs))"
    unfolding cs using run by (auto simp: feq_sym[of M "snd p"])
  moreover have "M \<in> snd ` set cs" using mem cs by auto
  moreover have "\<forall>q\<in>set cs. fle (snd q) M" using all le cs by simp
  ultimately show ?thesis by blast
qed

lemma possible_root_combos_map:
  "possible_root_combos sf roots = Inr combos \<Longrightarrow>
   combos = map (\<lambda>r. (r, running_sum sf r)) roots \<and> (\<forall>r\<in>set roots. sf r \<noteq> None)"
  by (induction roots arbitrary: combos)
    (auto simp: running_sum_def split: option.splits sum.splits prod.splits)

text \<open>
  Claim C3. When the loop of \<open>compute_median\<close> over a duplicate-free node list completes
  and no candidate total of the node is a not-a-number, a listed node whose event list is
  not the single contemporary event has as selected events exactly the events of its list
  whose candidate total equals its running sum, in list order, and that running sum is the
  greatest candidate total of the list: it is one of them and none is greater. Likewise
  the scan of the roots returns exactly the roots whose running sum equals the greatest
  running sum of the roots. The candidate total is the double the code computes: the
  running sums of the children the event has, plus its frequency, minus one half. So a
  node offering two events of frequency one half with equal child sums keeps both.
\<close>

theorem compute_median_keeps_all_ties:
  assumes "median_loop dtl_recon_graph event_scores postorder_mapping_nodes Map.empty
             = Inr sum_freqs"
    and "distinct postorder_mapping_nodes"
    and "possible_root_combos sum_freqs mpr_roots = Inr possible_roots"
    and "map_node \<in> set postorder_mapping_nodes"
    and "dtl_recon_graph map_node = Some evs"
    and "evs \<noteq> [contemporary]"
    and "\<forall>e\<in>set evs. candidate_total sum_freqs event_scores e \<noteq> NaN"
    and "\<forall>r\<in>set mpr_roots. running_sum sum_freqs r \<noteq> NaN"
  shows "sum_freqs map_node =
           Some (filter (\<lambda>e. feq (candidate_total sum_freqs event_scores e)
                               (running_sum sum_freqs map_node)) evs,
                 running_sum sum_freqs map_node)
       \<and> running_sum sum_freqs map_node \<in> candidate_total sum_freqs event_scores ` set evs
       \<and> (\<forall>e\<in>set evs. fle (candidate_total sum_freqs event_scores e)
                           (running_sum sum_freqs map_node))
       \<and> (mpr_roots \<noteq> [] \<longrightarrow>
            (\<exists>best. best_roots_loop possible_roots None [] =
                      (Some best, filter (\<lambda>r. feq (running_sum sum_freqs r) best) mpr_roots)
                  \<and> best \<in> running_sum sum_freqs ` set mpr_roots
                  \<and> (\<forall>r\<in>set mpr_roots. fle (running_sum sum_freqs r) best)))
       \<and> (evs = [e1, e2] \<and> event_scores e1 = Some (Finite (1 / 2))
            \<and> event_scores e2 = Some (Finite (1 / 2))
            \<and> child_sum sum_freqs e1 = child_sum sum_freqs e2
          \<longrightarrow> fst (the (sum_freqs map_node)) = [e1, e2])"
proof -
  let ?t = "candidate_total sum_freqs event_scores"
  from median_loop_invariant[OF assms(1,2)] assms(4,5,6)
  have ne: "evs \<noteq> []" and sel: "sum_freqs map_node = Some (selected ?t evs)"
    by blast+
  have rs: "running_sum sum_freqs map_node = greatest_total ?t evs"
    using sel by (simp add: running_sum_def selected_def)
  from greatest_total_greatest[OF ne assms(7)]
  have mem: "greatest_total ?t evs \<in> ?t ` set evs"
    and le: "\<forall>e\<in>set evs. fle (?t e) (greatest_total ?t evs)"
    by blast+
  have a: "sum_freqs map_node =
           Some (filter (\<lambda>e. feq (?t e) (running_sum sum_freqs map_node)) evs,
                 running_sum sum_freqs map_node)"
    using sel unfolding rs selected_def .
  have tie: "fst (the (sum_freqs map_node)) = [e1, e2]"
    if "evs = [e1, e2]" "event_scores e1 = Some (Finite (1 / 2))"
      "event_scores e2 = Some (Finite (1 / 2))" "child_sum sum_freqs e1 = child_sum sum_freqs e2"
  proof -
    have eq: "?t e1 = ?t e2" using that by (simp add: candidate_total_def)
    from mem that(1) eq have g: "greatest_total ?t evs = ?t e1" by auto
    have "?t e1 \<noteq> NaN" using assms(7) that(1) by simp
    then show ?thesis using sel that(1) eq g by (simp add: selected_def feq_def)
  qed
  have roots: "\<exists>best. best_roots_loop possible_roots None [] =
                      (Some best, filter (\<lambda>r. feq (running_sum sum_freqs r) best) mpr_roots)
                  \<and> best \<in> running_sum sum_freqs ` set mpr_roots
                  \<and> (\<forall>r\<in>set mpr_roots. fle (running_sum sum_freqs r) best)"
    if nr: "mpr_roots \<noteq> []"
  proof -
    from possible_root_combos_map[OF assms(3)]
    have ceq: "possible_roots = map (\<lambda>r. (r, running_sum sum_freqs r)) mpr_roots" by blast
    have cne: "possible_roots \<noteq> []" using nr ceq by simp
    have cn: "\<forall>p\<in>set possible_roots. snd p \<noteq> NaN" using assms(8) ceq by simp
    from best_roots_loop_None[OF cne cn] obtain M where
      run: "best_roots_loop possible_roots None [] =
              (Some M, map fst (filter (\<lambda>p. feq (snd p) M) possible_roots))"
      and m: "M \<in> snd ` set possible_roots" and l: "\<forall>p\<in>set possible_roots. fle (snd p) M"
      by blast
    have img: "snd ` set possible_roots = running_sum sum_freqs ` set mpr_roots"
      unfolding ceq by (auto simp: image_iff)
    have flt: "map fst (filter (\<lambda>p. feq (snd p) M) possible_roots)
             = filter (\<lambda>r. feq (running_sum sum_freqs r) M) mpr_roots"
      unfolding ceq using filter_pairs[of "\<lambda>v. feq v M" "running_sum sum_freqs" mpr_roots] .
    have "\<forall>r\<in>set mpr_roots. fle (running_sum sum_freqs r) M" using l unfolding ceq by simp
    with run m show ?thesis unfolding flt img by blast
  qed
  from a mem le roots tie show ?thesis unfolding rs by blast
qed

theorem compute_median_keeps_all_ties_witness:
  "median_loop tie_graph tie_scores tie_postorder Map.empty = Inr tie_sum_freqs
   \<and> distinct tie_postorder
   \<and> possible_root_combos tie_sum_freqs [tie_root] = Inr [(tie_root, Finite (1 / 2))]
   \<and> tie_root \<in> set tie_postorder
   \<and> tie_graph tie_root = Some [tie_loss_left, tie_loss_right]
   \<and> [tie_loss_left, tie_loss_right] \<noteq> [contemporary]
   \<and> candidate_total tie_sum_freqs tie_scores tie_loss_left = Finite (1 / 2)
   \<and> candidate_total tie_sum_freqs tie_scores tie_loss_right = Finite (1 / 2)
   \<and> running_sum tie_sum_freqs tie_root = Finite (1 / 2)
   \<and> tie_scores tie_loss_left = Some (Finite (1 / 2))
   \<and> tie_scores tie_loss_right = Some (Finite (1 / 2))
   \<and> fst (the (tie_sum_freqs tie_root)) = [tie_loss_left, tie_loss_right]
   \<and> best_roots_loop [(tie_root, Finite (1 / 2))] None [] = (Some (Finite (1 / 2)), [tie_root])
   \<and> compute_median 3 tie_graph tie_scores tie_postorder [tie_root]
       = Inr ([(tie_root, [tie_loss_left, tie_loss_right]), (tie_left, [contemporary]),
               (tie_right, [contemporary])], 2, [tie_root])"
proof -
  note defs = tie_defs tie_loss_left_def tie_loss_right_def
  have h2: "distinct tie_postorder" by (simp add: defs)
  have h3: "possible_root_combos tie_sum_freqs [tie_root] = Inr [(tie_root, Finite (1 / 2))]"
    by (simp add: defs)
  have h4: "tie_root \<in> set tie_postorder" by (simp add: defs)
  have h5: "tie_graph tie_root = Some [tie_loss_left, tie_loss_right]" by (simp add: defs)
  have h6: "[tie_loss_left, tie_loss_right] \<noteq> [contemporary]" by simp
  have t1: "candidate_total tie_sum_freqs tie_scores tie_loss_left = Finite (1 / 2)"
    by (simp add: defs candidate_total_def child_sum_def running_sum_def event_type_def
        child1_def fsub_def round_double_half round_double_one)
  have t2: "candidate_total tie_sum_freqs tie_scores tie_loss_right = Finite (1 / 2)"
    by (simp add: defs candidate_total_def child_sum_def running_sum_def event_type_def
        child1_def fsub_def round_double_half round_double_one)
  have h7: "\<forall>e\<in>set [tie_loss_left, tie_loss_right].
              candidate_total tie_sum_freqs tie_scores e \<noteq> NaN"
    using t1 t2 by simp
  have r: "running_sum tie_sum_freqs tie_root = Finite (1 / 2)"
    by (simp add: defs running_sum_def)
  have h8: "\<forall>r\<in>set [tie_root]. running_sum tie_sum_freqs r \<noteq> NaN" using r by simp
  have s1: "tie_scores tie_loss_left = Some (Finite (1 / 2))" by (simp add: defs)
  have s2: "tie_scores tie_loss_right = Some (Finite (1 / 2))" by (simp add: defs)
  have s3: "child_sum tie_sum_freqs tie_loss_left = child_sum tie_sum_freqs tie_loss_right"
    by (simp add: defs child_sum_def running_sum_def event_type_def child1_def)
  have "fst (the (tie_sum_freqs tie_root)) = [tie_loss_left, tie_loss_right]"
    using compute_median_keeps_all_ties
            [OF tie_median_loop h2 h3 h4 h5 h6 h7 h8, of tie_loss_left tie_loss_right]
      s1 s2 s3 by blast
  moreover have "best_roots_loop [(tie_root, Finite (1 / 2))] None []
      = (Some (Finite (1 / 2)), [tie_root])" by simp
  ultimately show ?thesis
    using tie_median_loop h2 h3 h4 h5 h6 t1 t2 r s1 s2 tie_compute_median by blast
qed

section \<open>Dictionaries, check_subgraph and the two path extractors\<close>

lemma dict_update_Cons:
  "dict_update d ((k, v) # other) = dict_update (AList.update k v d) other"
  by (simp add: dict_update_def)

lemma dict_update_Nil: "dict_update d [] = d"
  by (simp add: dict_update_def)

lemma map_of_dict_update:
  "distinct (map fst other) \<Longrightarrow> map_of (dict_update d other) = map_of d ++ map_of other"
proof (induction other arbitrary: d)
  case Nil
  then show ?case by (simp add: dict_update_Nil)
next
  case (Cons p other)
  obtain k v where p: "p = (k, v)" by (cases p)
  from Cons.prems p have k: "k \<notin> fst ` set other" and d: "distinct (map fst other)" by auto
  then have kn: "map_of other k = None" by (simp add: map_of_eq_None_iff)
  have "map_of (dict_update d (p # other)) = (map_of d)(k \<mapsto> v) ++ map_of other"
    unfolding p dict_update_Cons Cons.IH[OF d] by (simp add: update_conv')
  also have "\<dots> = map_of d ++ map_of (p # other)"
    using kn unfolding p by (auto simp: map_add_def fun_eq_iff split: option.splits)
  finally show ?case .
qed

lemma distinct_dict_update:
  "distinct (map fst d) \<Longrightarrow> distinct (map fst (dict_update d other))"
proof (induction other arbitrary: d)
  case Nil
  then show ?case by (simp add: dict_update_Nil)
next
  case (Cons p other)
  obtain k v where p: "p = (k, v)" by (cases p)
  show ?case unfolding p dict_update_Cons
    by (rule Cons.IH) (rule distinct_update[OF Cons.prems])
qed

lemma check_events_iff: "check_events gevs evs \<longleftrightarrow> set evs \<subseteq> set gevs"
  by (induction evs) auto

lemma check_nodes_iff:
  "check_nodes g d ks \<longleftrightarrow>
     (\<forall>k\<in>set ks. \<exists>gevs evs. g k = Some gevs \<and> map_of d k = Some evs \<and> set evs \<subseteq> set gevs)"
  by (induction ks) (auto simp: check_events_iff split: option.splits)

lemma check_subgraph_iff:
  "check_subgraph g d \<longleftrightarrow>
     (\<forall>k evs. map_of d k = Some evs \<longrightarrow> (\<exists>gevs. g k = Some gevs \<and> set evs \<subseteq> set gevs))"
proof
  assume a: "check_subgraph g d"
  show "\<forall>k evs. map_of d k = Some evs \<longrightarrow> (\<exists>gevs. g k = Some gevs \<and> set evs \<subseteq> set gevs)"
  proof (intro allI impI)
    fix k evs assume m: "map_of d k = Some evs"
    then have "k \<in> set (map fst d)" by (metis map_of_eq_None_iff option.distinct(1) set_map)
    with a m show "\<exists>gevs. g k = Some gevs \<and> set evs \<subseteq> set gevs"
      unfolding check_subgraph_def check_nodes_iff by force
  qed
next
  assume a: "\<forall>k evs. map_of d k = Some evs \<longrightarrow> (\<exists>gevs. g k = Some gevs \<and> set evs \<subseteq> set gevs)"
  have "\<exists>gevs evs. g k = Some gevs \<and> map_of d k = Some evs \<and> set evs \<subseteq> set gevs"
    if "k \<in> set (map fst d)" for k
  proof -
    from that obtain evs where "map_of d k = Some evs"
      by (metis map_of_eq_None_iff not_Some_eq set_map)
    with a show ?thesis by blast
  qed
  then show "check_subgraph g d" unfolding check_subgraph_def check_nodes_iff by blast
qed

lemma agrees_single: "ed r = Some evs \<Longrightarrow> agrees ed [(r, evs)]"
  by (auto simp: agrees_def split: if_splits)

lemma agrees_update: "agrees ed d1 \<Longrightarrow> agrees ed d2 \<Longrightarrow> agrees ed (dict_update d1 d2)"
  by (auto simp: agrees_def distinct_dict_update map_of_dict_update map_add_Some_iff)

lemma closed_under_add:
  "closed_under ed M1 \<Longrightarrow> closed_under ed M2 \<Longrightarrow> closed_under ed (M1 ++ M2)"
  unfolding closed_under_def by (metis Un_iff dom_map_add)

lemma closed_under_root:
  assumes "closed_under ed M"
    and "\<forall>c\<in>set (followed_children (hd (the (ed r)))). c \<in> dom M"
  shows "closed_under ed ([r \<mapsto> v] ++ M)"
  using assms unfolding closed_under_def by auto

lemma build_median_recon_graph_path:
  "path_closed ed rk \<Longrightarrow> ed r \<noteq> None \<Longrightarrow> rk r < depth \<Longrightarrow>
   \<exists>d. build_median_recon_graph depth ed r = Inr d \<and> agrees ed d \<and>
       closed_under ed (map_of d) \<and> r \<in> dom (map_of d)"
proof (induction depth arbitrary: r)
  case 0
  then show ?case by simp
next
  case (Suc depth)
  from Suc.prems(1,2) obtain first others where er: "ed r = Some (first # others)"
    unfolding path_closed_def by (metis neq_Nil_conv not_Some_eq)
  let ?evs = "first # others"
  have base: "agrees ed [(r, ?evs)]" by (rule agrees_single[where ed = ed and r = r, OF er])
  have kids: "\<forall>c\<in>set (followed_children first). ed c \<noteq> None \<and> rk c < depth"
    using Suc.prems(1,3) er unfolding path_closed_def by fastforce
  have hd_r: "hd (the (ed r)) = first" using er by simp
  consider (loss) "event_type first = ''L''"
    | (two) "event_type first \<noteq> ''L''" "event_type first \<in> set [''T'', ''S'', ''D'']"
    | (leaf) "event_type first \<noteq> ''L''" "event_type first \<notin> set [''T'', ''S'', ''D'']"
    by blast
  then show ?case
  proof cases
    case loss
    then have fc: "followed_children first = [child1 first]"
      by (simp add: followed_children_def)
    with kids have "ed (child1 first) \<noteq> None" "rk (child1 first) < depth" by auto
    from Suc.IH[OF Suc.prems(1) this] obtain sub where
      sub: "build_median_recon_graph depth ed (child1 first) = Inr sub" "agrees ed sub"
        "closed_under ed (map_of sub)" "child1 first \<in> dom (map_of sub)"
      by blast
    have dsub: "distinct (map fst sub)" using sub(2) by (simp add: agrees_def)
    have res: "build_median_recon_graph (Suc depth) ed r = Inr (dict_update [(r, ?evs)] sub)"
      using er loss sub(1) by simp
    have m: "map_of (dict_update [(r, ?evs)] sub) = [r \<mapsto> ?evs] ++ map_of sub"
      by (simp add: map_of_dict_update[OF dsub])
    have "closed_under ed ([r \<mapsto> ?evs] ++ map_of sub)"
      by (rule closed_under_root[OF sub(3)]) (use hd_r fc sub(4) in auto)
    then have c: "closed_under ed (map_of (dict_update [(r, ?evs)] sub))"
      unfolding m .
    have dm: "r \<in> dom (map_of (dict_update [(r, ?evs)] sub))"
      unfolding m by simp
    from res agrees_update[OF base sub(2)] c dm show ?thesis by blast
  next
    case two
    then have fc: "followed_children first = [child1 first, child2 first]"
      by (simp add: followed_children_def)
    with kids have k1: "ed (child1 first) \<noteq> None" "rk (child1 first) < depth"
      and k2: "ed (child2 first) \<noteq> None" "rk (child2 first) < depth" by auto
    from Suc.IH[OF Suc.prems(1) k1] obtain sub1 where
      sub1: "build_median_recon_graph depth ed (child1 first) = Inr sub1" "agrees ed sub1"
        "closed_under ed (map_of sub1)" "child1 first \<in> dom (map_of sub1)"
      by blast
    from Suc.IH[OF Suc.prems(1) k2] obtain sub2 where
      sub2: "build_median_recon_graph depth ed (child2 first) = Inr sub2" "agrees ed sub2"
        "closed_under ed (map_of sub2)" "child2 first \<in> dom (map_of sub2)"
      by blast
    have d1: "distinct (map fst sub1)" and d2: "distinct (map fst sub2)"
      using sub1(2) sub2(2) by (simp_all add: agrees_def)
    let ?res = "dict_update (dict_update [(r, ?evs)] sub1) sub2"
    have res: "build_median_recon_graph (Suc depth) ed r = Inr ?res"
      using er two sub1(1) sub2(1) by simp
    have m: "map_of ?res = [r \<mapsto> ?evs] ++ (map_of sub1 ++ map_of sub2)"
      by (simp add: map_of_dict_update[OF d2] map_of_dict_update[OF d1])
    have "closed_under ed ([r \<mapsto> ?evs] ++ (map_of sub1 ++ map_of sub2))"
      by (rule closed_under_root[OF closed_under_add[OF sub1(3) sub2(3)]])
        (use hd_r fc sub1(4) sub2(4) in auto)
    then have c: "closed_under ed (map_of ?res)"
      unfolding m .
    have dm: "r \<in> dom (map_of ?res)"
      unfolding m by simp
    from res agrees_update[OF agrees_update[OF base sub1(2)] sub2(2)] c dm
    show ?thesis by blast
  next
    case leaf
    then have fc: "followed_children first = []"
      by (simp add: followed_children_def)
    have res: "build_median_recon_graph (Suc depth) ed r = Inr [(r, ?evs)]"
      using er leaf by simp
    have c: "closed_under ed (map_of [(r, ?evs)])"
      using hd_r fc by (auto simp: closed_under_def split: if_splits)
    have dm: "r \<in> dom (map_of [(r, ?evs)])" by simp
    from res base c dm show ?thesis by blast
  qed
qed

text \<open>
  Claim C5, as amended. For an event dictionary with non-empty event lists that is closed
  and acyclic along the children the walk descends into, and enough stack frames,
  \<open>build_median_recon_graph\<close> returns a dictionary that contains the root, maps every
  included node to its whole event list in \<open>event_dict\<close> (one event only where that list
  has one element), and contains, with every included node, the single child of its first
  event when that is a loss and both children when it is an S, D or T event.
\<close>

theorem build_median_recon_graph_whole_lists:
  assumes "path_closed event_dict rk" and "event_dict root_node \<noteq> None"
    and "rk root_node < depth"
  shows "\<exists>d. build_median_recon_graph depth event_dict root_node = Inr d
           \<and> map_of d root_node \<noteq> None
           \<and> (\<forall>k evs. map_of d k = Some evs \<longrightarrow>
                 event_dict k = Some evs
                 \<and> (\<forall>c\<in>set (followed_children (hd evs)). map_of d c \<noteq> None)
                 \<and> (length evs = 1 \<longrightarrow> evs = [hd evs]))"
proof -
  from build_median_recon_graph_path[OF assms] obtain d where
    d: "build_median_recon_graph depth event_dict root_node = Inr d" "agrees event_dict d"
      "closed_under event_dict (map_of d)" "root_node \<in> dom (map_of d)"
    by blast
  have "event_dict k = Some evs \<and> (\<forall>c\<in>set (followed_children (hd evs)). map_of d c \<noteq> None)
        \<and> (length evs = 1 \<longrightarrow> evs = [hd evs])"
    if k: "map_of d k = Some evs" for k evs
  proof -
    from d(2) k have e: "event_dict k = Some evs" unfolding agrees_def by blast
    from d(3) k e have "\<forall>c\<in>set (followed_children (hd evs)). c \<in> dom (map_of d)"
      unfolding closed_under_def by force
    moreover have "length evs = 1 \<longrightarrow> evs = [hd evs]"
      by (cases evs) auto
    ultimately show ?thesis using e by blast
  qed
  with d(1,4) show ?thesis by blast
qed

text \<open>
  Claim C5 as stated fails where a list holds a tie: the root of the example graph is
  returned with both of its loss events, not with the first one alone.
\<close>

theorem build_median_recon_graph_tie_counterexample:
  "build_median_recon_graph 2 tie_graph tie_root
     = Inr [(tie_root, [tie_loss_left, tie_loss_right]), (tie_left, [contemporary])]
   \<and> [tie_loss_left, tie_loss_right] \<noteq> [tie_loss_left]"
  by (simp add: tie_defs tie_loss_left_def tie_loss_right_def event_type_def child1_def
      child2_def dict_update_def numeral_2_eq_2)

lemma tie_path_closed: "path_closed tie_graph tie_rank"
  unfolding path_closed_def
  by (auto simp: tie_defs tie_rank_def followed_children_def event_type_def child1_def
      child2_def split: if_splits)

theorem build_median_recon_graph_whole_lists_witness:
  "path_closed tie_graph tie_rank \<and> tie_graph tie_root \<noteq> None \<and> tie_rank tie_root < 2
   \<and> (\<exists>d. build_median_recon_graph 2 tie_graph tie_root = Inr d
           \<and> map_of d tie_root \<noteq> None
           \<and> (\<forall>k evs. map_of d k = Some evs \<longrightarrow>
                 tie_graph k = Some evs
                 \<and> (\<forall>c\<in>set (followed_children (hd evs)). map_of d c \<noteq> None)
                 \<and> (length evs = 1 \<longrightarrow> evs = [hd evs])))"
proof -
  have h2: "tie_graph tie_root \<noteq> None" by (simp add: tie_defs)
  have h3: "tie_rank tie_root < 2" by (simp add: tie_rank_def)
  from build_median_recon_graph_whole_lists[OF tie_path_closed h2 h3] tie_path_closed h2 h3
  show ?thesis by blast
qed

lemma drawn_from_single:
  assumes "med m = Some l" and "e \<in> set l"
  shows "drawn_from med [(m, [e])]"
proof -
  have a: "k = m \<and> evs = [e]" if "map_of [(m, [e])] k = Some evs" for k evs
    using that by (simp split: if_splits)
  have b: "distinct (map fst [(m, [e])])" by simp
  show ?thesis unfolding drawn_from_def using a b assms by blast
qed

lemma drawn_from_update:
  "drawn_from med d1 \<Longrightarrow> drawn_from med d2 \<Longrightarrow> drawn_from med (dict_update d1 d2)"
  unfolding drawn_from_def
  by (auto simp: distinct_dict_update map_of_dict_update map_add_Some_iff)

lemma drawn_from_subgraph: "drawn_from med d \<Longrightarrow> check_subgraph med d"
  unfolding drawn_from_def check_subgraph_iff by fastforce

lemma choose_random_median_drawn:
  "path_closed med rk \<Longrightarrow> med m \<noteq> None \<Longrightarrow> rk m < depth \<Longrightarrow>
   \<exists>d i'. choose_random_median depth rnd med m i = Inr (d, i') \<and> drawn_from med d \<and>
          map_of d m \<noteq> None"
proof (induction depth arbitrary: m i)
  case 0
  then show ?case by simp
next
  case (Suc depth)
  from Suc.prems(1,2) obtain evs where em: "med m = Some evs" and ne: "evs \<noteq> []"
    unfolding path_closed_def by (metis not_Some_eq)
  define e where "e = evs ! (rnd i mod length evs)"
  have ein: "e \<in> set evs" unfolding e_def using ne by simp
  have base: "drawn_from med [(m, [e])]"
    by (rule drawn_from_single[where med = med and m = m, OF em ein])
  have kids: "\<forall>c\<in>set (followed_children e). med c \<noteq> None \<and> rk c < depth"
    using Suc.prems(1,3) em ein unfolding path_closed_def by fastforce
  have unfold: "choose_random_median (Suc depth) rnd med m i =
     (case (if event_type e = ''L''
            then (case choose_random_median depth rnd med (child1 e) (Suc i) of
                    Inl err \<Rightarrow> Inl err
                  | Inr (sub, i') \<Rightarrow> Inr (dict_update [(m, [e])] sub, i'))
            else if event_type e \<in> set [''T'', ''S'', ''D'']
            then (case choose_random_median depth rnd med (child1 e) (Suc i) of
                    Inl err \<Rightarrow> Inl err
                  | Inr (sub1, i1) \<Rightarrow>
                      (case choose_random_median depth rnd med (child2 e) i1 of
                         Inl err \<Rightarrow> Inl err
                       | Inr (sub2, i2) \<Rightarrow>
                           Inr (dict_update (dict_update [(m, [e])] sub1) sub2, i2)))
            else Inr ([(m, [e])], Suc i)) of
        Inl err \<Rightarrow> Inl err
      | Inr (random_submedian, i') \<Rightarrow>
          if check_subgraph med random_submedian
          then Inr (random_submedian, i') else Inl AssertionError)"
    using em ne unfolding e_def by simp
  consider (loss) "event_type e = ''L''"
    | (two) "event_type e \<noteq> ''L''" "event_type e \<in> set [''T'', ''S'', ''D'']"
    | (leaf) "event_type e \<noteq> ''L''" "event_type e \<notin> set [''T'', ''S'', ''D'']"
    by blast
  then show ?case
  proof cases
    case loss
    then have "followed_children e = [child1 e]" by (simp add: followed_children_def)
    with kids have "med (child1 e) \<noteq> None" "rk (child1 e) < depth" by auto
    from Suc.IH[OF Suc.prems(1) this, of "Suc i"] obtain sub i' where
      sub: "choose_random_median depth rnd med (child1 e) (Suc i) = Inr (sub, i')"
        "drawn_from med sub"
      by blast
    let ?res = "dict_update [(m, [e])] sub"
    have dr: "drawn_from med ?res" by (rule drawn_from_update[OF base sub(2)])
    have ds: "distinct (map fst sub)" using sub(2) by (simp add: drawn_from_def)
    have mm: "map_of ?res m \<noteq> None"
      by (simp add: map_of_dict_update[OF ds] map_add_def split: option.splits)
    have "choose_random_median (Suc depth) rnd med m i = Inr (?res, i')"
      unfolding unfold using loss sub(1) drawn_from_subgraph[OF dr] by simp
    with dr mm show ?thesis by blast
  next
    case two
    then have "followed_children e = [child1 e, child2 e]" by (simp add: followed_children_def)
    with kids have k1: "med (child1 e) \<noteq> None" "rk (child1 e) < depth"
      and k2: "med (child2 e) \<noteq> None" "rk (child2 e) < depth" by auto
    from Suc.IH[OF Suc.prems(1) k1, of "Suc i"] obtain sub1 i1 where
      sub1: "choose_random_median depth rnd med (child1 e) (Suc i) = Inr (sub1, i1)"
        "drawn_from med sub1"
      by blast
    from Suc.IH[OF Suc.prems(1) k2, of i1] obtain sub2 i2 where
      sub2: "choose_random_median depth rnd med (child2 e) i1 = Inr (sub2, i2)"
        "drawn_from med sub2"
      by blast
    let ?res = "dict_update (dict_update [(m, [e])] sub1) sub2"
    have dr: "drawn_from med ?res"
      by (rule drawn_from_update[OF drawn_from_update[OF base sub1(2)] sub2(2)])
    have ds: "distinct (map fst sub1)" "distinct (map fst sub2)"
      using sub1(2) sub2(2) by (simp_all add: drawn_from_def)
    have mm: "map_of ?res m \<noteq> None"
      by (simp add: map_of_dict_update[OF ds(2)] map_of_dict_update[OF ds(1)] map_add_def
          split: option.splits)
    have "choose_random_median (Suc depth) rnd med m i = Inr (?res, i2)"
      unfolding unfold using two sub1(1) sub2(1) drawn_from_subgraph[OF dr] by simp
    with dr mm show ?thesis by blast
  next
    case leaf
    have "choose_random_median (Suc depth) rnd med m i = Inr ([(m, [e])], Suc i)"
      unfolding unfold using leaf drawn_from_subgraph[OF base] by simp
    moreover have "map_of [(m, [e])] m \<noteq> None" by simp
    ultimately show ?thesis using base by blast
  qed
qed

text \<open>
  Claim C9. For a median graph with non-empty event lists that is closed and acyclic along
  the children the walk descends into, any of its keys, enough stack frames and any supply
  of random draws, \<open>choose_random_median\<close> returns a dictionary (so no assertion failed in
  any recursive call) that contains the start node, maps every included node to a
  one-element list whose event is in that node's list in the median graph, and passes
  \<open>check_subgraph\<close> against the median graph.
\<close>

theorem choose_random_median_subgraph:
  assumes "path_closed median_recon rk" and "median_recon map_node \<noteq> None"
    and "rk map_node < depth"
  shows "\<exists>d i'. choose_random_median depth rnd median_recon map_node i = Inr (d, i')
           \<and> map_of d map_node \<noteq> None
           \<and> (\<forall>k evs. map_of d k = Some evs \<longrightarrow>
                 (\<exists>e l. evs = [e] \<and> median_recon k = Some l \<and> e \<in> set l))
           \<and> check_subgraph median_recon d"
proof -
  from choose_random_median_drawn[OF assms, of rnd i] obtain d i' where
    d: "choose_random_median depth rnd median_recon map_node i = Inr (d, i')"
      "drawn_from median_recon d" "map_of d map_node \<noteq> None"
    by blast
  from d(2) have "\<forall>k evs. map_of d k = Some evs \<longrightarrow>
                 (\<exists>e l. evs = [e] \<and> median_recon k = Some l \<and> e \<in> set l)"
    unfolding drawn_from_def by blast
  with d drawn_from_subgraph[OF d(2)] show ?thesis by blast
qed

theorem choose_random_median_subgraph_witness:
  "path_closed tie_graph tie_rank \<and> tie_graph tie_root \<noteq> None \<and> tie_rank tie_root < 2
   \<and> choose_random_median 2 (\<lambda>i. 1) tie_graph tie_root 0
       = Inr ([(tie_root, [tie_loss_right]), (tie_right, [contemporary])], 2)
   \<and> (\<exists>d i'. choose_random_median 2 (\<lambda>i. 1) tie_graph tie_root 0 = Inr (d, i')
           \<and> map_of d tie_root \<noteq> None
           \<and> (\<forall>k evs. map_of d k = Some evs \<longrightarrow>
                 (\<exists>e l. evs = [e] \<and> tie_graph k = Some l \<and> e \<in> set l))
           \<and> check_subgraph tie_graph d)"
proof -
  have h2: "tie_graph tie_root \<noteq> None" by (simp add: tie_defs)
  have h3: "tie_rank tie_root < 2" by (simp add: tie_rank_def)
  have ev: "choose_random_median 2 (\<lambda>i. 1) tie_graph tie_root 0
       = Inr ([(tie_root, [tie_loss_right]), (tie_right, [contemporary])], 2)"
    by (simp add: tie_defs tie_loss_left_def tie_loss_right_def event_type_def child1_def
      child2_def dict_update_def numeral_2_eq_2 check_subgraph_def)
  from choose_random_median_subgraph[OF tie_path_closed h2 h3, of "\<lambda>i. 1" 0]
    tie_path_closed h2 h3 ev
  show ?thesis by blast
qed

section \<open>The median graph is a subgraph\<close>

lemma event_sums_fst: "event_sums sf es evs = Inr ts \<Longrightarrow> map fst ts = evs"
  by (induction evs arbitrary: ts) (auto split: sum.splits)

lemma median_node_value:
  assumes "median_node g es sf x = Inr sf'"
  shows "\<exists>evs best s. g x = Some evs \<and> sf' = sf(x \<mapsto> (best, s)) \<and> set best \<subseteq> set evs"
proof -
  from assms obtain evs where gx: "g x = Some evs"
    by (auto simp: median_node_def split: option.splits)
  show ?thesis
  proof (cases "evs = [contemporary]")
    case True
    with assms gx show ?thesis by (auto simp: median_node_def)
  next
    case False
    with assms gx obtain ts where ts: "event_sums sf es evs = Inr ts"
      by (auto simp: median_node_def split: sum.splits)
    from assms gx False ts obtain M where
      "sf' = sf(x \<mapsto> (map fst (filter (\<lambda>event. feq (snd event) M) ts), M))"
      by (auto simp: median_node_def Let_def split: list.splits)
    moreover have "set (map fst (filter (\<lambda>event. feq (snd event) M) ts)) \<subseteq> set evs"
    proof -
      have "fst ` set (filter (\<lambda>event. feq (snd event) M) ts) \<subseteq> fst ` set ts"
        by (rule image_mono) simp
      also have "fst ` set ts = set evs"
        using event_sums_fst[OF ts] by (metis set_map)
      finally show ?thesis by simp
    qed
    ultimately show ?thesis using gx by blast
  qed
qed

lemma median_node_within:
  assumes "median_node g es sf x = Inr sf'" and "within_graph g (strip_sums sf)"
  shows "within_graph g (strip_sums sf')"
proof -
  from median_node_value[OF assms(1)] obtain evs best s where
    v: "g x = Some evs" "sf' = sf(x \<mapsto> (best, s))" "set best \<subseteq> set evs"
    by blast
  show ?thesis
    unfolding within_graph_def
  proof (intro allI impI)
    fix k l assume k: "strip_sums sf' k = Some l"
    show "\<exists>gevs. g k = Some gevs \<and> set l \<subseteq> set gevs"
    proof (cases "k = x")
      case True
      with k v show ?thesis by (simp add: strip_sums_def)
    next
      case False
      with k v(2) have "strip_sums sf k = Some l" by (simp add: strip_sums_def)
      with assms(2) show ?thesis unfolding within_graph_def by blast
    qed
  qed
qed

lemma median_loop_within:
  "median_loop g es nodes sf = Inr sf' \<Longrightarrow> within_graph g (strip_sums sf) \<Longrightarrow>
   within_graph g (strip_sums sf')"
proof (induction nodes arbitrary: sf)
  case Nil
  then show ?case by simp
next
  case (Cons x xs)
  from Cons.prems(1) obtain sf1 where
    step: "median_node g es sf x = Inr sf1" and rest: "median_loop g es xs sf1 = Inr sf'"
    by (auto split: sum.splits)
  from Cons.IH[OF rest median_node_within[OF step Cons.prems(2)]] show ?case .
qed

lemma build_dtl_recon_graph_within:
  "build_dtl_recon_graph depth roots ed acc = Inr res \<Longrightarrow>
   (\<forall>k v. map_of acc k = Some v \<longrightarrow> ed k = Some v) \<Longrightarrow>
   (\<forall>k v. map_of res k = Some v \<longrightarrow> ed k = Some v)"
proof (induction depth roots ed acc arbitrary: res rule: build_dtl_recon_graph.induct)
  case (1 depth event_dict result)
  then show ?case by simp
next
  case (2 root_node rest event_dict result)
  then show ?case by simp
next
  case (3 depth root_node rest event_dict result)
  show ?case
  proof (cases "map_of result root_node \<noteq> None")
    case True
    with "3.prems"(1) have "build_dtl_recon_graph (Suc depth) rest event_dict result = Inr res"
      by simp
    from "3.IH"(1)[OF True this "3.prems"(2)] show ?thesis .
  next
    case False
    with "3.prems"(1) obtain evs result' where
      e: "event_dict root_node = Some evs"
      and b1: "build_dtl_recon_graph depth (event_children evs) event_dict
                 (AList.update root_node evs result) = Inr result'"
      and b2: "build_dtl_recon_graph (Suc depth) rest event_dict result' = Inr res"
      by (auto split: option.splits sum.splits)
    have a: "\<forall>k v. map_of (AList.update root_node evs result) k = Some v \<longrightarrow>
               event_dict k = Some v"
      using "3.prems"(2) e by (auto simp: update_conv' split: if_splits)
    from "3.IH"(2)[OF False e b1 a] have "\<forall>k v. map_of result' k = Some v \<longrightarrow> event_dict k = Some v" .
    from "3.IH"(3)[OF False e b1 b2 this] show ?thesis .
  qed
qed

lemma event_sum_error: "event_sum sf es e = Inl err \<Longrightarrow> err = KeyError"
  by (auto simp: event_sum_def split: if_splits option.splits prod.splits)

lemma event_sums_error: "event_sums sf es evs = Inl err \<Longrightarrow> err = KeyError"
  by (induction evs) (auto split: sum.splits dest: event_sum_error)

lemma median_node_error:
  "median_node g es sf x = Inl err \<Longrightarrow> err = KeyError \<or> err = ValueError"
  by (auto simp: median_node_def Let_def
      split: option.splits if_splits sum.splits list.splits dest: event_sums_error)

lemma median_loop_error:
  "median_loop g es nodes sf = Inl err \<Longrightarrow> err = KeyError \<or> err = ValueError"
  by (induction nodes arbitrary: sf) (auto split: sum.splits dest: median_node_error)

lemma possible_root_combos_error:
  "possible_root_combos sf roots = Inl err \<Longrightarrow> err = KeyError"
  by (induction roots) (auto split: option.splits sum.splits prod.splits)

lemma build_dtl_recon_graph_error:
  "build_dtl_recon_graph depth roots ed acc = Inl err \<Longrightarrow>
   err = KeyError \<or> err = RecursionError"
  by (induction depth roots ed acc rule: build_dtl_recon_graph.induct)
    (auto split: if_splits option.splits sum.splits)

lemma count_mprs_error:
  "count_mprs depth m g counts = Inl err \<Longrightarrow> err = KeyError \<or> err = RecursionError"
  "count_events depth evs g counts cnt = Inl err \<Longrightarrow> err = KeyError \<or> err = RecursionError"
  by (induction depth m g counts and depth evs g counts cnt rule: count_mprs_count_events.induct)
    (auto split: if_splits option.splits sum.splits prod.splits)

lemma count_mprs_wrapper_error:
  "count_mprs_wrapper depth roots g counts cnt = Inl err \<Longrightarrow>
   err = KeyError \<or> err = RecursionError"
  by (induction roots arbitrary: counts cnt)
    (auto split: sum.splits prod.splits dest: count_mprs_error(1))

lemma median_graph_is_subgraph:
  assumes "median_loop g es nodes Map.empty = Inr sf"
    and "build_dtl_recon_graph depth best (strip_sums sf) [] = Inr med"
  shows "\<forall>k evs. map_of med k = Some evs \<longrightarrow> (\<exists>gevs. g k = Some gevs \<and> set evs \<subseteq> set gevs)"
proof -
  have "within_graph g (strip_sums Map.empty)"
    by (simp add: within_graph_def strip_sums_def)
  from median_loop_within[OF assms(1) this] have w: "within_graph g (strip_sums sf)" .
  have "\<forall>k v. map_of med k = Some v \<longrightarrow> strip_sums sf k = Some v"
    by (rule build_dtl_recon_graph_within[OF assms(2)]) simp
  with w show ?thesis unfolding within_graph_def by blast
qed

text \<open>
  Claim C4. \<open>compute_median\<close> never fails its subgraph assertion, for any graph, scores,
  node list, roots and stack budget; and whenever it returns, the median graph passes
  \<open>check_subgraph\<close> against the original graph: each of its keys is a key of the original
  graph and each event listed under it is listed under the same key there. The median
  graph is built by the model of \<open>DTLReconGraph.build_dtl_recon_graph\<close>.
\<close>

theorem compute_median_is_subgraph:
  "compute_median depth dtl_recon_graph event_scores postorder_mapping_nodes mpr_roots
     \<noteq> Inl AssertionError
   \<and> (compute_median depth dtl_recon_graph event_scores postorder_mapping_nodes mpr_roots
        = Inr (med_recon_graph, n_med_recons, best_roots)
      \<longrightarrow> check_subgraph dtl_recon_graph med_recon_graph
        \<and> (\<forall>k evs. map_of med_recon_graph k = Some evs \<longrightarrow>
              (\<exists>gevs. dtl_recon_graph k = Some gevs \<and> set evs \<subseteq> set gevs)))"
proof -
  let ?run = "compute_median depth dtl_recon_graph event_scores postorder_mapping_nodes mpr_roots"
  have sub: "check_subgraph dtl_recon_graph med"
    if "median_loop dtl_recon_graph event_scores postorder_mapping_nodes Map.empty = Inr sf"
      "build_dtl_recon_graph depth best (strip_sums sf) [] = Inr med" for sf best med
    using median_graph_is_subgraph[OF that] unfolding check_subgraph_iff .
  have a: "?run \<noteq> Inl AssertionError"
    unfolding compute_median_def
    by (auto simp: Let_def sub split: sum.splits prod.splits
        dest: median_loop_error possible_root_combos_error build_dtl_recon_graph_error
          count_mprs_wrapper_error)
  have b: "check_subgraph dtl_recon_graph med_recon_graph"
    if "?run = Inr (med_recon_graph, n_med_recons, best_roots)"
    using that unfolding compute_median_def
    by (auto simp: Let_def split: sum.splits prod.splits if_splits)
  from a b show ?thesis unfolding check_subgraph_iff by blast
qed

theorem compute_median_is_subgraph_witness:
  "compute_median 3 tie_graph tie_scores tie_postorder [tie_root]
     = Inr ([(tie_root, [tie_loss_left, tie_loss_right]), (tie_left, [contemporary]),
             (tie_right, [contemporary])], 2, [tie_root])
   \<and> check_subgraph tie_graph
        [(tie_root, [tie_loss_left, tie_loss_right]), (tie_left, [contemporary]),
         (tie_right, [contemporary])]"
proof -
  from compute_median_is_subgraph[of 3 tie_graph tie_scores tie_postorder "[tie_root]"]
    tie_compute_median
  show ?thesis by simp
qed

section \<open>mapping_node_sort orders lexicographically\<close>

lemma position_Cons:
  "position (y # ys) (Some x) = (if x = y then 0 else Suc (position ys (Some x)))"
  by (simp add: position_def)

lemma position_less: "x \<in> set xs \<Longrightarrow> position xs (Some x) < length xs"
  by (induction xs) (auto simp: position_Cons)

lemma gene_levels_lookup:
  "distinct xs \<Longrightarrow>
   gene_levels k i xs tbl x =
     (if x \<in> set xs then Some ((i + position xs (Some x)) * k) else tbl x)"
  by (induction xs arbitrary: i tbl) (auto simp: position_Cons)

lemma species_levels_lookup:
  "distinct xs \<Longrightarrow>
   species_levels i xs tbl x =
     (if x \<in> set xs then Some (i + position xs (Some x)) else tbl x)"
  by (induction xs arbitrary: i tbl) (auto simp: position_Cons)

lemma sort_rank_covered:
  assumes "distinct genes" and "distinct species" and "g \<in> set genes" and "s \<in> set species"
  shows "sort_rank (gene_levels (length species) 0 genes Map.empty)
           (species_levels 0 species Map.empty) (Some g, Some s)
         = Some (rank_of genes species (Some g, Some s))"
  using assms by (simp add: sort_rank_def gene_levels_lookup species_levels_lookup rank_of_def)

lemma rank_le_iff_lex:
  fixes ga gb sa sb n :: nat
  assumes "sa < n" and "sb < n"
  shows "ga * n + sa \<le> gb * n + sb \<longleftrightarrow> ga < gb \<or> (ga = gb \<and> sa \<le> sb)"
proof (cases ga gb rule: linorder_cases)
  case less
  then have "Suc ga * n \<le> gb * n" by (intro mult_le_mono1) simp
  with assms less show ?thesis by simp
next
  case equal
  then show ?thesis by simp
next
  case greater
  then have "Suc gb * n \<le> ga * n" by (intro mult_le_mono1) simp
  with assms greater show ?thesis by simp
qed

text \<open>
  Claim C8. For duplicate-free gene and species orderings that cover both components of
  every given mapping node, \<open>mapping_node_sort\<close> returns a permutation of the mapping
  nodes that is sorted by the rank \<open>gene_index * species_count + species_index\<close>, and that
  is therefore in lexicographic order: by the position of the gene component first and,
  among equal gene components, by the position of the species component, whatever the
  lengths of the two orderings.
\<close>

theorem mapping_node_sort_lexicographic:
  assumes "distinct ordered_gene_node_list" and "distinct ordered_species_node_list"
    and "covers ordered_gene_node_list ordered_species_node_list mapping_node_list"
  shows "\<exists>sorted_list.
           mapping_node_sort ordered_gene_node_list ordered_species_node_list mapping_node_list
             = Inr sorted_list
           \<and> mset sorted_list = mset mapping_node_list
           \<and> sorted (map (rank_of ordered_gene_node_list ordered_species_node_list) sorted_list)
           \<and> sorted_wrt (lex_before ordered_gene_node_list ordered_species_node_list) sorted_list"
proof -
  let ?gl = "gene_levels (length ordered_species_node_list) 0 ordered_gene_node_list Map.empty"
  let ?sl = "species_levels 0 ordered_species_node_list Map.empty"
  let ?r = "rank_of ordered_gene_node_list ordered_species_node_list"
  let ?key = "\<lambda>node. the (sort_rank ?gl ?sl node)"
  have cov: "\<exists>g s. node = (Some g, Some s) \<and> g \<in> set ordered_gene_node_list
               \<and> s \<in> set ordered_species_node_list"
    if "node \<in> set mapping_node_list" for node
  proof -
    obtain a b where ab: "node = (a, b)" by (cases node)
    from assms(3) that have
      "(case node of (Some g, Some s) \<Rightarrow> g \<in> set ordered_gene_node_list
                       \<and> s \<in> set ordered_species_node_list | _ \<Rightarrow> False)"
      unfolding covers_def list_all_iff by blast
    then show ?thesis unfolding ab by (cases a; cases b) simp_all
  qed
  have rk: "sort_rank ?gl ?sl node = Some (?r node)" if "node \<in> set mapping_node_list" for node
  proof -
    from cov[OF that] obtain g s where
      "node = (Some g, Some s)" "g \<in> set ordered_gene_node_list"
      "s \<in> set ordered_species_node_list"
      by blast
    then show ?thesis using sort_rank_covered[OF assms(1,2), of g s] by simp
  qed
  then have ok: "list_all (\<lambda>node. sort_rank ?gl ?sl node \<noteq> None) mapping_node_list"
    by (simp add: list_all_iff)
  let ?res = "sort_key ?key mapping_node_list"
  have run: "mapping_node_sort ordered_gene_node_list ordered_species_node_list
               mapping_node_list = Inr ?res"
    using ok by (simp add: mapping_node_sort_def Let_def)
  have perm: "mset ?res = mset mapping_node_list" by simp
  have eq: "map ?key ?res = map ?r ?res"
    by (rule map_cong) (simp_all add: rk)
  have "sorted (map ?key ?res)" by (rule sorted_sort_key)
  then have srt: "sorted (map ?r ?res)" unfolding eq .
  then have "sorted_wrt (\<lambda>a b. ?r a \<le> ?r b) ?res" by (simp add: sorted_map)
  moreover have "lex_before ordered_gene_node_list ordered_species_node_list a b"
    if "a \<in> set ?res" "b \<in> set ?res" "?r a \<le> ?r b" for a b
  proof -
    from that(1,2) have "a \<in> set mapping_node_list" "b \<in> set mapping_node_list" by simp_all
    from cov[OF this(1)] cov[OF this(2)]
    have pa: "position ordered_species_node_list (snd a) < length ordered_species_node_list"
      and pb: "position ordered_species_node_list (snd b) < length ordered_species_node_list"
      by (auto simp: position_less)
    from that(3) have
      "position ordered_gene_node_list (fst a) * length ordered_species_node_list
         + position ordered_species_node_list (snd a)
       \<le> position ordered_gene_node_list (fst b) * length ordered_species_node_list
         + position ordered_species_node_list (snd b)"
      unfolding rank_of_def .
    then show ?thesis
      unfolding lex_before_def rank_le_iff_lex[OF pa pb] .
  qed
  ultimately have "sorted_wrt (lex_before ordered_gene_node_list ordered_species_node_list) ?res"
    using sorted_wrt_mono_rel[of ?res "\<lambda>a b. ?r a \<le> ?r b"
        "lex_before ordered_gene_node_list ordered_species_node_list"]
    by blast
  with run perm srt show ?thesis by blast
qed

theorem mapping_node_sort_lexicographic_witness:
  "distinct sort_genes \<and> distinct sort_species \<and> covers sort_genes sort_species sort_nodes
   \<and> mapping_node_sort sort_genes sort_species sort_nodes
       = Inr [(Some ''g0'', Some ''s1''), (Some ''g0'', Some ''s2''), (Some ''g1'', Some ''s0'')]
   \<and> (\<exists>sorted_list.
           mapping_node_sort sort_genes sort_species sort_nodes = Inr sorted_list
           \<and> mset sorted_list = mset sort_nodes
           \<and> sorted (map (rank_of sort_genes sort_species) sorted_list)
           \<and> sorted_wrt (lex_before sort_genes sort_species) sorted_list)"
proof -
  have h1: "distinct sort_genes" by (simp add: sort_genes_def)
  have h2: "distinct sort_species" by (simp add: sort_species_def)
  have h3: "covers sort_genes sort_species sort_nodes"
    by (simp add: covers_def sort_genes_def sort_species_def sort_nodes_def)
  have ev: "mapping_node_sort sort_genes sort_species sort_nodes
       = Inr [(Some ''g0'', Some ''s1''), (Some ''g0'', Some ''s2''), (Some ''g1'', Some ''s0'')]"
    by (simp add: mapping_node_sort_def sort_rank_def sort_genes_def sort_species_def
        sort_nodes_def Let_def)
  from mapping_node_sort_lexicographic[OF h1 h2 h3] h1 h2 h3 ev show ?thesis by blast
qed

section \<open>count_mprs counts by sums of products\<close>

lemma grows_refl: "grows c c"
  by (simp add: grows_def)

lemma grows_trans: "grows a b \<Longrightarrow> grows b c \<Longrightarrow> grows a c"
  by (simp add: grows_def)

lemma grows_upd: "grows a b \<Longrightarrow> grows a (b(k \<mapsto> v))"
  by (simp add: grows_def)

lemma memo_ok_empty: "memo_ok S g ref Map.empty"
  by (simp add: memo_ok_def)

lemma memo_ok_event:
  assumes "memo_ok S g ref counts"
    and "\<forall>ch\<in>{child1 e, child2 e}. ch \<noteq> no_node \<longrightarrow> counts (Inl ch) \<noteq> None"
  shows "memo_ok S g ref (counts(Inr e \<mapsto> ref (child1 e) * ref (child2 e)))"
  using assms unfolding memo_ok_def by auto

lemma memo_ok_node:
  assumes "memo_ok S g ref counts" and "m \<in> S"
    and "\<forall>e\<in>set (the (g m)). counts (Inr e) \<noteq> None"
  shows "memo_ok S g ref (counts(Inl m \<mapsto> ref m))"
  using assms unfolding memo_ok_def by auto

lemma count_events_correct:
  assumes step: "\<And>m counts. memo_ok S g ref counts \<Longrightarrow> enough depth rk S m \<Longrightarrow>
      \<exists>counts'. count_mprs depth m g counts = Inr (ref m, counts') \<and> memo_ok S g ref counts' \<and>
        grows counts counts' \<and> (m \<noteq> no_node \<longrightarrow> counts' (Inl m) \<noteq> None)"
  shows "memo_ok S g ref counts \<Longrightarrow>
     \<forall>e\<in>set evs. enough depth rk S (child1 e) \<and> enough depth rk S (child2 e) \<Longrightarrow>
     \<exists>counts'. count_events depth evs g counts cnt
         = Inr (cnt + (\<Sum>e\<leftarrow>evs. ref (child1 e) * ref (child2 e)), counts') \<and>
       memo_ok S g ref counts' \<and> grows counts counts' \<and>
       (\<forall>e\<in>set evs. counts' (Inr e) \<noteq> None)"
proof (induction evs arbitrary: counts cnt)
  case Nil
  then show ?case by (simp add: grows_refl)
next
  case (Cons e evs)
  from Cons.prems(2) have e1: "enough depth rk S (child1 e)" and e2: "enough depth rk S (child2 e)"
    and rest: "\<forall>e\<in>set evs. enough depth rk S (child1 e) \<and> enough depth rk S (child2 e)"
    by auto
  from step[OF Cons.prems(1) e1] obtain counts1 where
    r1: "count_mprs depth (child1 e) g counts = Inr (ref (child1 e), counts1)"
    and m1: "memo_ok S g ref counts1" and g1: "grows counts counts1"
    and d1: "child1 e \<noteq> no_node \<longrightarrow> counts1 (Inl (child1 e)) \<noteq> None"
    by blast
  from step[OF m1 e2] obtain counts2 where
    r2: "count_mprs depth (child2 e) g counts1 = Inr (ref (child2 e), counts2)"
    and m2: "memo_ok S g ref counts2" and g2: "grows counts1 counts2"
    and d2: "child2 e \<noteq> no_node \<longrightarrow> counts2 (Inl (child2 e)) \<noteq> None"
    by blast
  let ?counts3 = "counts2(Inr e \<mapsto> ref (child1 e) * ref (child2 e))"
  have kids: "\<forall>ch\<in>{child1 e, child2 e}. ch \<noteq> no_node \<longrightarrow> counts2 (Inl ch) \<noteq> None"
    using d1 d2 g2 unfolding grows_def by blast
  have m3: "memo_ok S g ref ?counts3" by (rule memo_ok_event[OF m2 kids])
  from Cons.IH[OF m3 rest, of "cnt + ref (child1 e) * ref (child2 e)"] obtain counts' where
    r3: "count_events depth evs g ?counts3 (cnt + ref (child1 e) * ref (child2 e))
           = Inr (cnt + ref (child1 e) * ref (child2 e)
                    + (\<Sum>e\<leftarrow>evs. ref (child1 e) * ref (child2 e)), counts')"
    and m': "memo_ok S g ref counts'" and g3: "grows ?counts3 counts'"
    and d3: "\<forall>e\<in>set evs. counts' (Inr e) \<noteq> None"
    by blast
  have run: "count_events depth (e # evs) g counts cnt
       = Inr (cnt + (\<Sum>e\<leftarrow>e # evs. ref (child1 e) * ref (child2 e)), counts')"
    using r1 r2 r3 by (simp add: add.assoc)
  have gr: "grows counts counts'"
    using grows_trans[OF grows_trans[OF g1 grows_upd[OF g2]] g3] .
  have "counts' (Inr e) \<noteq> None" using g3 unfolding grows_def by simp
  with d3 have "\<forall>e\<in>set (e # evs). counts' (Inr e) \<noteq> None" by simp
  with run m' gr show ?case by blast
qed

lemma count_mprs_correct:
  "ranked_on S g rk \<Longrightarrow> recurrence S g ref \<Longrightarrow> memo_ok S g ref counts \<Longrightarrow>
   enough depth rk S m \<Longrightarrow>
   \<exists>counts'. count_mprs depth m g counts = Inr (ref m, counts') \<and> memo_ok S g ref counts' \<and>
     grows counts counts' \<and> (m \<noteq> no_node \<longrightarrow> counts' (Inl m) \<noteq> None)"
proof (induction depth arbitrary: m counts)
  case 0
  then show ?case by (simp add: enough_def)
next
  case (Suc depth)
  show ?case
  proof (cases "counts (Inl m)")
    case (Some c)
    with Suc.prems(3) have "c = ref m" unfolding memo_ok_def by blast
    with Some Suc.prems(3) show ?thesis by (simp add: grows_refl)
  next
    case None
    show ?thesis
    proof (cases "m = no_node")
      case True
      with None Suc.prems(2,3) show ?thesis by (simp add: recurrence_def grows_refl)
    next
      case False
      with Suc.prems(4) have mS: "m \<in> S" and fuel: "rk m < depth" by (auto simp: enough_def)
      from Suc.prems(1) mS obtain evs where gm: "g m = Some evs"
        and kids: "\<forall>c\<in>set (event_children evs). c \<in> S \<and> rk c < rk m"
        unfolding ranked_on_def by blast
      have en: "\<forall>e\<in>set evs. enough depth rk S (child1 e) \<and> enough depth rk S (child2 e)"
      proof
        fix e assume e: "e \<in> set evs"
        have "enough depth rk S c" if "c \<in> {child1 e, child2 e}" for c
        proof (cases "c = no_node")
          case True
          with fuel show ?thesis by (simp add: enough_def)
        next
          case False
          with that e have "c \<in> set (event_children evs)"
            by (auto simp: event_children_def)
          with kids fuel show ?thesis by (auto simp: enough_def)
        qed
        then show "enough depth rk S (child1 e) \<and> enough depth rk S (child2 e)" by simp
      qed
      from count_events_correct[where S = S and g = g and ref = ref and depth = depth
          and rk = rk and counts = counts and evs = evs and cnt = 0,
          OF Suc.IH[OF Suc.prems(1,2)] Suc.prems(3) en]
      obtain counts' where
        r: "count_events depth evs g counts 0
              = Inr (0 + (\<Sum>e\<leftarrow>evs. ref (child1 e) * ref (child2 e)), counts')"
        and m': "memo_ok S g ref counts'" and gr: "grows counts counts'"
        and d: "\<forall>e\<in>set evs. counts' (Inr e) \<noteq> None"
        by blast
      have refm: "ref m = (\<Sum>e\<leftarrow>evs. ref (child1 e) * ref (child2 e))"
        using Suc.prems(2) mS gm unfolding recurrence_def by force
      have run: "count_mprs (Suc depth) m g counts = Inr (ref m, counts'(Inl m \<mapsto> ref m))"
        using None False gm r refm by simp
      have "memo_ok S g ref (counts'(Inl m \<mapsto> ref m))"
        by (rule memo_ok_node[OF m' mS]) (use gm d in simp)
      with run grows_upd[OF gr] show ?thesis by auto
    qed
  qed
qed

lemmas dup_defs =
  dup_root_def dup_left_def dup_right_def dup_left_a_def dup_left_b_def dup_event_def
  dup_graph_def dup_preorder_def dup_rank_def

lemma mpr_count_no_node: "mpr_count n g no_node = 1"
  by (cases n) simp_all

lemma mpr_count_fuel:
  "ranked_on S g rk \<Longrightarrow> m = no_node \<or> m \<in> S \<Longrightarrow> rk m < n \<Longrightarrow> rk m < n' \<Longrightarrow>
   mpr_count n g m = mpr_count n' g m"
proof (induction n arbitrary: n' m)
  case 0
  then show ?case by simp
next
  case (Suc k)
  from Suc.prems(4) obtain k' where n': "n' = Suc k'" by (cases n') auto
  show ?case
  proof (cases "m = no_node")
    case True
    then show ?thesis by (simp add: mpr_count_no_node)
  next
    case False
    with Suc.prems(2) have mS: "m \<in> S" by simp
    from Suc.prems(1) mS obtain evs where gm: "g m = Some evs"
      and kids: "\<forall>c\<in>set (event_children evs). c \<in> S \<and> rk c < rk m"
      unfolding ranked_on_def by blast
    have eq: "mpr_count k g c = mpr_count k' g c"
      if "e \<in> set evs" "c \<in> {child1 e, child2 e}" for e c
    proof (cases "c = no_node")
      case True
      then show ?thesis by (simp add: mpr_count_no_node)
    next
      case False
      with that have "c \<in> set (event_children evs)" by (auto simp: event_children_def)
      with kids have "c \<in> S" "rk c < rk m" by auto
      with Suc.prems(3,4) n' have "rk c < k" "rk c < k'" by auto
      from Suc.IH[OF Suc.prems(1) _ this] \<open>c \<in> S\<close> show ?thesis by blast
    qed
    have maps: "map (\<lambda>e. mpr_count k g (child1 e) * mpr_count k g (child2 e)) evs
        = map (\<lambda>e. mpr_count k' g (child1 e) * mpr_count k' g (child2 e)) evs"
      by (rule map_cong) (simp_all add: eq)
    have L: "mpr_count (Suc k) g m
        = sum_list (map (\<lambda>e. mpr_count k g (child1 e) * mpr_count k g (child2 e)) evs)"
      using False gm by simp
    have R: "mpr_count (Suc k') g m
        = sum_list (map (\<lambda>e. mpr_count k' g (child1 e) * mpr_count k' g (child2 e)) evs)"
      using False gm by simp
    show ?thesis unfolding n' L R maps ..
  qed
qed

lemma mpr_count_recurrence:
  assumes "ranked_on S g rk"
  shows "recurrence S g (\<lambda>m. mpr_count (Suc (rk m)) g m)"
  unfolding recurrence_def
proof (intro conjI ballI)
  show "mpr_count (Suc (rk no_node)) g no_node = 1" by simp
next
  fix m assume mS: "m \<in> S"
  from assms mS obtain evs where gm: "g m = Some evs"
    and kids: "\<forall>c\<in>set (event_children evs). c \<in> S \<and> rk c < rk m"
    unfolding ranked_on_def by blast
  from assms mS have ne: "m \<noteq> no_node" unfolding ranked_on_def by blast
  have eq: "mpr_count (rk m) g c = mpr_count (Suc (rk c)) g c"
    if "e \<in> set evs" "c \<in> {child1 e, child2 e}" for e c
  proof (cases "c = no_node")
    case True
    then show ?thesis by (simp add: mpr_count_no_node)
  next
    case False
    with that have "c \<in> set (event_children evs)" by (auto simp: event_children_def)
    with kids have "c \<in> S" "rk c < rk m" by auto
    from mpr_count_fuel[OF assms _ this(2), of "Suc (rk c)"] this(1) show ?thesis by simp
  qed
  have maps: "map (\<lambda>e. mpr_count (rk m) g (child1 e) * mpr_count (rk m) g (child2 e)) evs
      = map (\<lambda>e. mpr_count (Suc (rk (child1 e))) g (child1 e)
                  * mpr_count (Suc (rk (child2 e))) g (child2 e)) evs"
    by (rule map_cong) (simp_all only: eq insertI1 insertI2)
  have L: "mpr_count (Suc (rk m)) g m
      = sum_list (map (\<lambda>e. mpr_count (rk m) g (child1 e) * mpr_count (rk m) g (child2 e)) evs)"
    using ne gm by simp
  have ge: "the (g m) = evs" using gm by simp
  show "mpr_count (Suc (rk m)) g m =
      (\<Sum>e\<leftarrow>the (g m). mpr_count (Suc (rk (child1 e))) g (child1 e)
                        * mpr_count (Suc (rk (child2 e))) g (child2 e))"
    unfolding L ge maps ..
qed

lemma count_roots_correct:
  "ranked_on S g rk \<Longrightarrow> recurrence S g ref \<Longrightarrow> memo_ok S g ref counts \<Longrightarrow>
   \<forall>m\<in>set pre. fst m = gr \<longrightarrow> enough depth rk S m \<Longrightarrow>
   \<exists>counts'. count_roots depth gr g pre counts cnt
       = Inr (cnt + (\<Sum>m\<leftarrow>filter (\<lambda>m. fst m = gr) pre. ref m), counts') \<and>
     memo_ok S g ref counts' \<and> grows counts counts' \<and>
     (\<forall>m\<in>set pre. fst m = gr \<longrightarrow> m \<noteq> no_node \<longrightarrow> counts' (Inl m) \<noteq> None)"
proof (induction pre arbitrary: counts cnt)
  case Nil
  then show ?case by (simp add: grows_refl)
next
  case (Cons m pre)
  from Cons.prems(4) have rest: "\<forall>m\<in>set pre. fst m = gr \<longrightarrow> enough depth rk S m" by simp
  show ?case
  proof (cases "fst m = gr")
    case True
    with Cons.prems(4) have "enough depth rk S m" by simp
    from count_mprs_correct[OF Cons.prems(1,2,3) this] obtain counts1 where
      r1: "count_mprs depth m g counts = Inr (ref m, counts1)"
      and m1: "memo_ok S g ref counts1" and g1: "grows counts counts1"
      and d1: "m \<noteq> no_node \<longrightarrow> counts1 (Inl m) \<noteq> None"
      by blast
    from Cons.IH[OF Cons.prems(1,2) m1 rest, of "cnt + ref m"] obtain counts' where
      r2: "count_roots depth gr g pre counts1 (cnt + ref m)
             = Inr (cnt + ref m + (\<Sum>m\<leftarrow>filter (\<lambda>m. fst m = gr) pre. ref m), counts')"
      and m2: "memo_ok S g ref counts'" and g2: "grows counts1 counts'"
      and d2: "\<forall>m\<in>set pre. fst m = gr \<longrightarrow> m \<noteq> no_node \<longrightarrow> counts' (Inl m) \<noteq> None"
      by blast
    have run: "count_roots depth gr g (m # pre) counts cnt
        = Inr (cnt + (\<Sum>m\<leftarrow>filter (\<lambda>m. fst m = gr) (m # pre). ref m), counts')"
      using True r1 r2 by (simp add: add.assoc)
    have "m \<noteq> no_node \<longrightarrow> counts' (Inl m) \<noteq> None" using d1 g2 unfolding grows_def by blast
    with d2 have "\<forall>x\<in>set (m # pre). fst x = gr \<longrightarrow> x \<noteq> no_node \<longrightarrow> counts' (Inl x) \<noteq> None"
      by simp
    with run m2 grows_trans[OF g1 g2] show ?thesis by blast
  next
    case False
    from Cons.IH[OF Cons.prems(1,2,3) rest, of cnt] obtain counts' where
      r2: "count_roots depth gr g pre counts cnt
             = Inr (cnt + (\<Sum>m\<leftarrow>filter (\<lambda>m. fst m = gr) pre. ref m), counts')"
      and m2: "memo_ok S g ref counts'" and g2: "grows counts counts'"
      and d2: "\<forall>m\<in>set pre. fst m = gr \<longrightarrow> m \<noteq> no_node \<longrightarrow> counts' (Inl m) \<noteq> None"
      by blast
    have run: "count_roots depth gr g (m # pre) counts cnt
        = Inr (cnt + (\<Sum>m\<leftarrow>filter (\<lambda>m. fst m = gr) (m # pre). ref m), counts')"
      using False r2 by simp
    from d2 False have "\<forall>x\<in>set (m # pre). fst x = gr \<longrightarrow> x \<noteq> no_node \<longrightarrow> counts' (Inl x) \<noteq> None"
      by simp
    with run m2 g2 show ?thesis by blast
  qed
qed

lemma count_of_ref:
  assumes "ranked_on S g rk" and "recurrence S g ref" and "enough depth rk S m"
  shows "count_of depth g m = ref m"
proof -
  from count_mprs_correct[OF assms(1,2) memo_ok_empty assms(3)] obtain counts' where
    "count_mprs depth m g Map.empty = Inr (ref m, counts')" by blast
  then show ?thesis by (simp add: count_of_def)
qed

text \<open>
  Claim C2. For a reconciliation graph that is closed under event children and acyclic
  (ranked), and enough stack frames: \<open>count_mprs\<close> returns 1 for \<open>(None, None)\<close> and
  leaves the memo as it was; for every mapping node of the graph it returns the sum, over
  the events listed under the node, of the product of the counts of the event's two
  children, and the memo it returns holds that sum under the node and each product under
  its event; and the total accumulated by \<open>generate_scores\<close> is the sum of the counts of
  the listed mapping nodes whose gene component is the gene root. The count of a node is
  what \<open>count_mprs\<close> returns for it on an empty memo.
\<close>

theorem count_mprs_sums_products:
  assumes "ranked_on (dom dtl_recon_graph) dtl_recon_graph rk"
    and "\<And>m. Suc (rk m) < depth"
    and "\<forall>m\<in>set preorder_mapping_node_list.
           fst m = gene_root \<longrightarrow> m \<in> dom dtl_recon_graph \<or> m = no_node"
  shows "count_mprs depth no_node dtl_recon_graph Map.empty = Inr (1, Map.empty)
       \<and> (\<forall>m evs. dtl_recon_graph m = Some evs \<longrightarrow>
            (\<exists>counts.
               count_mprs depth m dtl_recon_graph Map.empty
                 = Inr ((\<Sum>e\<leftarrow>evs. count_of depth dtl_recon_graph (child1 e)
                                   * count_of depth dtl_recon_graph (child2 e)), counts)
               \<and> counts (Inl m)
                 = Some (\<Sum>e\<leftarrow>evs. count_of depth dtl_recon_graph (child1 e)
                                    * count_of depth dtl_recon_graph (child2 e))
               \<and> (\<forall>e\<in>set evs. counts (Inr e)
                     = Some (count_of depth dtl_recon_graph (child1 e)
                             * count_of depth dtl_recon_graph (child2 e)))))
       \<and> (\<exists>counts.
            count_roots depth gene_root dtl_recon_graph preorder_mapping_node_list Map.empty 0
              = Inr ((\<Sum>m\<leftarrow>filter (\<lambda>m. fst m = gene_root) preorder_mapping_node_list.
                        count_of depth dtl_recon_graph m), counts))"
proof -
  let ?g = dtl_recon_graph
  let ?S = "dom ?g"
  define ref where "ref = (\<lambda>m. mpr_count (Suc (rk m)) ?g m)"
  have rec: "recurrence ?S ?g ref"
    unfolding ref_def by (rule mpr_count_recurrence[OF assms(1)])
  have en: "enough depth rk ?S m" if "m = no_node \<or> m \<in> ?S" for m
    using that assms(2)[of m] by (auto simp: enough_def)
  have cof: "count_of depth ?g m = ref m" if "m = no_node \<or> m \<in> ?S" for m
    by (rule count_of_ref[OF assms(1) rec en[OF that]])
  have kid: "c = no_node \<or> c \<in> ?S"
    if "?g m = Some evs" "e \<in> set evs" "c \<in> {child1 e, child2 e}" for m evs e c
  proof (cases "c = no_node")
    case True
    then show ?thesis by simp
  next
    case False
    with that have "c \<in> set (event_children evs)" by (auto simp: event_children_def)
    moreover from that(1) have "m \<in> ?S" by blast
    with assms(1) obtain evs' where
      "?g m = Some evs'" "\<forall>c\<in>set (event_children evs'). c \<in> ?S \<and> rk c < rk m"
      unfolding ranked_on_def by blast
    with that(1) have "\<forall>c\<in>set (event_children evs). c \<in> ?S" by simp
    ultimately show ?thesis by blast
  qed
  have first: "count_mprs depth no_node ?g Map.empty = Inr (1, Map.empty)"
  proof -
    from assms(2)[of no_node] obtain d where "depth = Suc d" by (cases depth) auto
    then show ?thesis by simp
  qed
  have second: "\<exists>counts.
       count_mprs depth m ?g Map.empty
         = Inr ((\<Sum>e\<leftarrow>evs. count_of depth ?g (child1 e) * count_of depth ?g (child2 e)), counts)
       \<and> counts (Inl m)
         = Some (\<Sum>e\<leftarrow>evs. count_of depth ?g (child1 e) * count_of depth ?g (child2 e))
       \<and> (\<forall>e\<in>set evs. counts (Inr e)
             = Some (count_of depth ?g (child1 e) * count_of depth ?g (child2 e)))"
    if gm: "?g m = Some evs" for m evs
  proof -
    from gm have mS: "m \<in> ?S" by blast
    from assms(1) mS have ne: "m \<noteq> no_node" unfolding ranked_on_def by blast
    from count_mprs_correct[OF assms(1) rec memo_ok_empty en, of m] mS ne obtain counts where
      run: "count_mprs depth m ?g Map.empty = Inr (ref m, counts)"
      and ok: "memo_ok ?S ?g ref counts" and dm: "counts (Inl m) \<noteq> None"
      by blast
    have prod: "count_of depth ?g (child1 e) * count_of depth ?g (child2 e)
                = ref (child1 e) * ref (child2 e)" if "e \<in> set evs" for e
      using cof[OF kid[OF gm that]] by simp
    have "map (\<lambda>e. count_of depth ?g (child1 e) * count_of depth ?g (child2 e)) evs
        = map (\<lambda>e. ref (child1 e) * ref (child2 e)) evs"
      by (rule map_cong) (simp_all only: prod)
    then have sum: "(\<Sum>e\<leftarrow>evs. count_of depth ?g (child1 e) * count_of depth ?g (child2 e))
        = (\<Sum>e\<leftarrow>evs. ref (child1 e) * ref (child2 e))"
      by (rule arg_cong)
    have refm: "ref m = (\<Sum>e\<leftarrow>evs. ref (child1 e) * ref (child2 e))"
      using rec mS gm unfolding recurrence_def by force
    from dm obtain c where c: "counts (Inl m) = Some c" by blast
    with ok have cm: "c = ref m" and evd: "\<forall>e\<in>set (the (?g m)). counts (Inr e) \<noteq> None"
      unfolding memo_ok_def by blast+
    have evv: "counts (Inr e) = Some (ref (child1 e) * ref (child2 e))" if "e \<in> set evs" for e
    proof -
      from evd that gm obtain v where "counts (Inr e) = Some v" by fastforce
      with ok show ?thesis unfolding memo_ok_def by blast
    qed
    show ?thesis
      unfolding sum
      using run c cm refm evv prod by (intro exI[of _ counts]) simp
  qed
  have third: "\<exists>counts.
      count_roots depth gene_root ?g preorder_mapping_node_list Map.empty 0
        = Inr ((\<Sum>m\<leftarrow>filter (\<lambda>m. fst m = gene_root) preorder_mapping_node_list.
                  count_of depth ?g m), counts)"
  proof -
    have roots: "\<forall>m\<in>set preorder_mapping_node_list. fst m = gene_root \<longrightarrow> enough depth rk ?S m"
      using assms(3) en by blast
    from count_roots_correct[OF assms(1) rec memo_ok_empty roots, of 0] obtain counts where
      run: "count_roots depth gene_root ?g preorder_mapping_node_list Map.empty 0
          = Inr (0 + (\<Sum>m\<leftarrow>filter (\<lambda>m. fst m = gene_root) preorder_mapping_node_list. ref m),
                 counts)"
      by blast
    have "map (count_of depth ?g) (filter (\<lambda>m. fst m = gene_root) preorder_mapping_node_list)
        = map ref (filter (\<lambda>m. fst m = gene_root) preorder_mapping_node_list)"
    proof (rule map_cong)
      fix m assume "m \<in> set (filter (\<lambda>m. fst m = gene_root) preorder_mapping_node_list)"
      with assms(3) have "m = no_node \<or> m \<in> ?S" by auto
      then show "count_of depth ?g m = ref m" by (rule cof)
    qed simp
    then have "(\<Sum>m\<leftarrow>filter (\<lambda>m. fst m = gene_root) preorder_mapping_node_list.
                  count_of depth ?g m)
        = (\<Sum>m\<leftarrow>filter (\<lambda>m. fst m = gene_root) preorder_mapping_node_list. ref m)"
      by (rule arg_cong)
    with run show ?thesis by simp
  qed
  from first second third show ?thesis by blast
qed

lemma dup_ranked: "ranked_on (dom dup_graph) dup_graph dup_rank"
  unfolding ranked_on_def
  by (auto simp: dup_defs event_children_def child1_def child2_def split: if_splits)

theorem count_mprs_sums_products_witness:
  "ranked_on (dom dup_graph) dup_graph dup_rank
   \<and> (\<forall>m. Suc (dup_rank m) < 4)
   \<and> list_all (\<lambda>m. fst m = Some ''g0'' \<longrightarrow> m \<in> dom dup_graph \<or> m = no_node) dup_preorder
   \<and> count_of 4 dup_graph dup_left = 2 \<and> count_of 4 dup_graph dup_right = 1
   \<and> (\<exists>counts. count_mprs 4 dup_root dup_graph Map.empty
         = Inr ((\<Sum>e\<leftarrow>[dup_event]. count_of 4 dup_graph (child1 e)
                                     * count_of 4 dup_graph (child2 e)), counts))
   \<and> (\<exists>counts. count_roots 4 (Some ''g0'') dup_graph dup_preorder Map.empty 0
         = Inr ((\<Sum>m\<leftarrow>filter (\<lambda>m. fst m = Some ''g0'') dup_preorder.
                   count_of 4 dup_graph m), counts))"
proof -
  have h2: "Suc (dup_rank m) < 4" for m by (simp add: dup_rank_def)
  have h3: "\<forall>m\<in>set dup_preorder. fst m = Some ''g0'' \<longrightarrow> m \<in> dom dup_graph \<or> m = no_node"
    by (simp add: dup_defs)
  have g: "dup_graph dup_root = Some [dup_event]" by (simp add: dup_defs)
  have c1: "count_of 4 dup_graph dup_left = 2"
    by (simp add: count_of_def dup_defs child1_def child2_def numeral_eq_Suc)
  have c2: "count_of 4 dup_graph dup_right = 1"
    by (simp add: count_of_def dup_defs child1_def child2_def numeral_eq_Suc)
  have h3': "list_all (\<lambda>m. fst m = Some ''g0'' \<longrightarrow> m \<in> dom dup_graph \<or> m = no_node)
               dup_preorder"
    using h3 unfolding list_all_iff .
  from count_mprs_sums_products[OF dup_ranked h2 h3] g dup_ranked h2 h3' c1 c2
  show ?thesis by blast
qed

section \<open>generate_scores: what is returned, and a zero total\<close>

lemma round_double_small:
  "round_double 2 = Finite 2" "round_double 4 = Finite 4" "round_double 6 = Finite 6"
  "round_double 7 = Finite 7" "round_double 8 = Finite 8" "round_double 9 = Finite 9"
  "round_double 10 = Finite 10"
  by (simp_all add: float_eval)

lemmas float_ops =
  float_of_int_def float_over_int_def float_times_int_def num_plus_float_def num_over_float_def
  feq_def round_double_one round_double_half round_double_small


text \<open>
  Claim C1 at a concrete graph. A duplication at the root over a node with two loss events
  encodes two reconciliations, both of which use the duplication. With the unbound names
  of its second half bound, \<open>generate_scores\<close> returns the total 2 and, for the
  duplication event, the score 2.0: the number of reconciliations using the event, not
  that number divided by the total. The loop of lines 120 to 121 divides the node scores,
  which are thrown away, and leaves the returned event scores as they are. As committed
  the function returns nothing at all: it raises \<open>NameError\<close> at line 116.
\<close>

theorem generate_scores_returns_unnormalised_scores:
  "total_of (generate_scores_names_bound 4 dup_preorder dup_graph (Some ''g0'')) = Some 2
   \<and> score_of (generate_scores_names_bound 4 dup_preorder dup_graph (Some ''g0'')) dup_event
       = Some (Finite 2)
   \<and> generate_scores 4 dup_preorder dup_graph (Some ''g0'') = Inl NameError"
  by (simp add: total_of_def score_of_def generate_scores_names_bound_def generate_scores_def
      calculate_scores_for_children_def init_scores_def dup_defs child1_def child2_def
      numeral_eq_Suc float_ops)

text \<open>
  Claim C7 as stated fails. On a graph whose only node lists no event \<open>count_mprs\<close> is
  entered for the root, runs to its end and returns 0, the loop of lines 96 to 98 gives
  the total 0 and the memo is filled. Only then does the call stop, with the
  \<open>NameError\<close> of line 116 that a graph of any total meets.
\<close>

theorem generate_scores_accepts_zero_total:
  "count_mprs 2 lone_root lone_graph Map.empty = Inr (0, lone_counts)
   \<and> count_roots 2 (Some ''g0'') lone_graph [lone_root] Map.empty 0 = Inr (0, lone_counts)
   \<and> generate_scores 2 [lone_root] lone_graph (Some ''g0'') = Inl NameError"
  by (simp add: generate_scores_def lone_root_def lone_graph_def lone_counts_def numeral_2_eq_2)

text \<open>
  Claim C7, as amended. Nothing rejects a zero total before the counter runs:
  \<open>generate_scores\<close> tests neither the graph nor the total. On a graph that is closed under
  event children and acyclic, with enough stack frames, whose total is zero, the counter is
  entered for every listed node whose gene is the gene root and runs to completion, and the
  counting loop returns the total 0. The call then raises \<open>NameError\<close>, as it does for
  every total.
\<close>

theorem generate_scores_zero_total:
  assumes "ranked_on (dom dtl_recon_graph) dtl_recon_graph rk"
    and "\<And>m. Suc (rk m) < depth"
    and "\<forall>m\<in>set preorder_mapping_node_list.
           fst m = gene_root \<longrightarrow> m \<in> dom dtl_recon_graph \<or> m = no_node"
    and "(\<Sum>m\<leftarrow>filter (\<lambda>m. fst m = gene_root) preorder_mapping_node_list.
            count_of depth dtl_recon_graph m) = 0"
  shows "(\<exists>counts.
            count_roots depth gene_root dtl_recon_graph preorder_mapping_node_list Map.empty 0
              = Inr (0, counts))
       \<and> generate_scores depth preorder_mapping_node_list dtl_recon_graph gene_root
           = Inl NameError"
proof -
  let ?g = dtl_recon_graph
  let ?S = "dom ?g"
  let ?roots = "filter (\<lambda>m. fst m = gene_root) preorder_mapping_node_list"
  define ref where "ref = (\<lambda>m. mpr_count (Suc (rk m)) ?g m)"
  have rec: "recurrence ?S ?g ref"
    unfolding ref_def by (rule mpr_count_recurrence[OF assms(1)])
  have en: "enough depth rk ?S m" if "m = no_node \<or> m \<in> ?S" for m
    using that assms(2)[of m] by (auto simp: enough_def)
  have cof: "count_of depth ?g m = ref m" if "m = no_node \<or> m \<in> ?S" for m
    by (rule count_of_ref[OF assms(1) rec en[OF that]])
  have roots: "\<forall>m\<in>set preorder_mapping_node_list. fst m = gene_root \<longrightarrow> enough depth rk ?S m"
    using assms(3) en by blast
  from count_roots_correct[OF assms(1) rec memo_ok_empty roots, of 0] obtain counts where
    run: "count_roots depth gene_root ?g preorder_mapping_node_list Map.empty 0
        = Inr (0 + (\<Sum>m\<leftarrow>?roots. ref m), counts)"
    by blast
  have "map (count_of depth ?g) ?roots = map ref ?roots"
  proof (rule map_cong)
    fix m assume "m \<in> set ?roots"
    with assms(3) have "m = no_node \<or> m \<in> ?S" by auto
    then show "count_of depth ?g m = ref m" by (rule cof)
  qed simp
  then have "(\<Sum>m\<leftarrow>?roots. count_of depth ?g m) = (\<Sum>m\<leftarrow>?roots. ref m)"
    by (rule arg_cong)
  with assms(4) have "(\<Sum>m\<leftarrow>?roots. ref m) = 0" by simp
  with run have run0:
    "count_roots depth gene_root ?g preorder_mapping_node_list Map.empty 0 = Inr (0, counts)"
    by simp
  then have "generate_scores depth preorder_mapping_node_list ?g gene_root = Inl NameError"
    by (simp add: generate_scores_def)
  with run0 show ?thesis by blast
qed

theorem generate_scores_zero_total_witness:
  "ranked_on (dom lone_graph) lone_graph (\<lambda>m. 0)
   \<and> (\<Sum>m\<leftarrow>filter (\<lambda>m. fst m = Some ''g0'') [lone_root]. count_of 2 lone_graph m) = 0
   \<and> (\<exists>counts. count_roots 2 (Some ''g0'') lone_graph [lone_root] Map.empty 0 = Inr (0, counts))
   \<and> generate_scores 2 [lone_root] lone_graph (Some ''g0'') = Inl NameError"
proof -
  have h1: "ranked_on (dom lone_graph) lone_graph (\<lambda>m. 0)"
    by (simp add: ranked_on_def lone_graph_def lone_root_def event_children_def)
  have h2: "Suc ((\<lambda>m. 0) m) < 2" for m :: "string mapping_node" by simp
  have h3: "\<forall>m\<in>set [lone_root].
      fst m = Some ''g0'' \<longrightarrow> m \<in> dom lone_graph \<or> m = no_node"
    by (simp add: lone_graph_def)
  have h4: "(\<Sum>m\<leftarrow>filter (\<lambda>m. fst m = Some ''g0'') [lone_root]. count_of 2 lone_graph m) = 0"
    by (simp add: count_of_def lone_root_def lone_graph_def numeral_2_eq_2)
  from generate_scores_zero_total[of lone_graph "\<lambda>m. 0" 2 "[lone_root]" "Some ''g0''",
      OF h1 h2 h3 h4] h1 h4
  show ?thesis by blast
qed

section \<open>The nonzero-score assertion\<close>




end
